theory Spec2Isabelle
  imports Complex_Main "HOL-Library.Word"
begin

section \<open>JavaScript values and errors\<close>

text \<open>
  The sources are TypeScript running in a browser. Numbers are modelled as follows:
  array lengths, indices, channel counts and the sample rate are \<open>nat\<close> (or \<open>int\<close> where
  the source subtracts), audio samples, amplitudes and slider values are \<open>real\<close>: a
  JavaScript number is the real number it denotes. Where the rounding of a double
  decides which branch the code takes (the band edges of \<open>generateMouthShapes\<close>) the
  rounding is written out with \<open>double_round\<close>; elsewhere sums and products are exact.
  There are no infinities. NaN appears in one place only, the read of a sample past the
  end of its array in the encoder, where it is written \<open>None\<close>. Exceptions thrown by the
  platform are values of \<open>js_error\<close>; a function that can throw returns
  \<open>js_error + 'a\<close>.
\<close>

datatype js_error =
    TypeError            \<comment> \<open>\<open>reduce\<close> of an empty array with no initial value\<close>
  | RangeError           \<comment> \<open>\<open>DataView\<close> access outside the buffer\<close>
  | IndexSizeError       \<comment> \<open>\<open>getChannelData\<close> with a channel that does not exist\<close>
  | Error string         \<comment> \<open>\<open>throw new Error(message)\<close>\<close>

section \<open>Lip-sync: mouth shapes (project-manager.tsx)\<close>

record lipsync_settings =
  quality :: string
  smoothing :: bool
  amplitudeThreshold :: real
  mouthScale :: real

subsection \<open>Double arithmetic\<close>

text \<open>
  \<open>double_round\<close> is the IEEE 754 binary64 rounding of a real number: to the nearest
  double, ties to the even significand. A double in the binade \<open>2^e \<le> |x| < 2^(e+1)\<close>
  is a multiple of \<open>2^(e-52)\<close>; below \<open>2^(-1022)\<close> the spacing stays \<open>2^(-1074)\<close>. Overflow
  to infinity is not modelled. A decimal literal of the source denotes the rounding of
  its decimal value, and the product of two doubles is the rounding of their exact
  product.
\<close>

definition round_ties_even :: "real \<Rightarrow> int" where
  "round_ties_even r =
     (let f = \<lfloor>r\<rfloor>; d = r - of_int f
      in if d < 1 / 2 then f
         else if 1 / 2 < d then f + 1
         else if even f then f else f + 1)"

definition double_round :: "real \<Rightarrow> real" where
  "double_round x =
     (if x = 0 then 0
      else (let e = max \<lfloor>log 2 \<bar>x\<bar>\<rfloor> (- 1022);
                ulp = 2 powr (of_int e - 52)
            in of_int (round_ties_even (x / ulp)) * ulp))"

definition js_times :: "real \<Rightarrow> real \<Rightarrow> real" where
  "js_times a b = double_round (a * b)"

subsection \<open>Classification and smoothing\<close>

text \<open>
  \<open>generateMouthShapes\<close>: one label per amplitude, first matching branch wins. The three
  edges are the double products \<open>settings.amplitudeThreshold * 0.3\<close>, \<open>* 0.6\<close> and
  \<open>* 0.8\<close>.
\<close>

definition generateMouthShapes :: "lipsync_settings \<Rightarrow> real list \<Rightarrow> string list" where
  "generateMouthShapes settings amplitudes =
     map (\<lambda>amplitude.
            if amplitude < js_times (amplitudeThreshold settings) (double_round (3 / 10))
              then ''closed''
            else if amplitude < js_times (amplitudeThreshold settings) (double_round (6 / 10))
              then ''slightly-open''
            else if amplitude < js_times (amplitudeThreshold settings) (double_round (8 / 10))
              then ''open''
            else ''wide-open'')
         amplitudes"

text \<open>
  \<open>Array.prototype.slice(start, end)\<close>: a negative index counts from the end, both
  indices are clipped to the array, and an empty range gives the empty array.
\<close>

definition slice_arr :: "'a list \<Rightarrow> int \<Rightarrow> int \<Rightarrow> 'a list" where
  "slice_arr xs start end =
     (let len = int (length xs);
          k = (if start < 0 then max (len + start) 0 else min start len);
          final = (if end < 0 then max (len + end) 0 else min end len)
      in take (nat (final - k)) (drop (nat k) xs))"

text \<open>
  \<open>Array.prototype.reduce(callback)\<close> with no initial value: the accumulator starts as
  the first element and the callback sees the remaining elements from left to right (and
  the whole array as its last argument); an empty array throws a TypeError.
\<close>

fun reduce :: "('a \<Rightarrow> 'a \<Rightarrow> 'a list \<Rightarrow> 'a) \<Rightarrow> 'a list \<Rightarrow> js_error + 'a" where
  "reduce callback [] = Inl TypeError"
| "reduce callback (x # xs) = Inr (foldl (\<lambda>a b. callback a b (x # xs)) x xs)"

text \<open>
  The callback of \<open>smoothMouthShapes\<close>:
  \<^verbatim>\<open>arr.filter(v => v === a).length >= arr.filter(v => v === b).length ? a : b\<close>
\<close>

definition mostCommon_step :: "'a \<Rightarrow> 'a \<Rightarrow> 'a list \<Rightarrow> 'a" where
  "mostCommon_step a b arr =
     (if length (filter (\<lambda>v. v = a) arr) \<ge> length (filter (\<lambda>v. v = b) arr) then a else b)"

text \<open>
  The \<open>for\<close> loop of \<open>smoothMouthShapes\<close> with \<open>windowSize = 3\<close>. The bound
  \<open>shapes.length - windowSize\<close> is a JavaScript number and may be negative, so it is
  computed on \<open>int\<close>. The window is read from \<open>shapes\<close>, the write goes to the copy
  \<open>smoothed\<close>; the index written is always inside the copy.
\<close>

function smooth_loop :: "'a list \<Rightarrow> nat \<Rightarrow> 'a list \<Rightarrow> js_error + 'a list" where
  "smooth_loop shapes i smoothed =
     (if int i < int (length shapes) - 3 then
        (case reduce mostCommon_step (slice_arr shapes (int i - 3) (int i + 3 + 1)) of
           Inl e \<Rightarrow> Inl e
         | Inr mostCommon \<Rightarrow> smooth_loop shapes (i + 1) (smoothed[i := mostCommon]))
      else Inr smoothed)"
  by pat_completeness auto
termination
  by (relation "measure (\<lambda>(shapes, i, smoothed). length shapes - i)") auto

declare smooth_loop.simps [simp del]

definition smoothMouthShapes :: "lipsync_settings \<Rightarrow> 'a list \<Rightarrow> js_error + 'a list" where
  "smoothMouthShapes settings shapes =
     (if \<not> smoothing settings then Inr shapes
      else smooth_loop shapes 3 shapes)"

section \<open>Audio buffers (the platform's \<open>AudioBuffer\<close>)\<close>

text \<open>
  An \<open>AudioBuffer\<close> has a sample rate, a length in sample frames and one
  \<open>Float32Array\<close> per channel. The platform guarantees that every channel holds exactly
  \<open>length\<close> samples; \<open>AudioBuffer_ok\<close> states it. \<open>numberOfChannels\<close> is the number of
  channel arrays. The field \<open>length\<close> is named \<open>buf_length\<close> here.
\<close>

record AudioBuffer =
  sampleRate :: nat
  buf_length :: nat
  channels :: "real list list"

definition numberOfChannels :: "AudioBuffer \<Rightarrow> nat" where
  "numberOfChannels buffer = length (channels buffer)"

definition AudioBuffer_ok :: "AudioBuffer \<Rightarrow> bool" where
  "AudioBuffer_ok buffer = list_all (\<lambda>data. length data = buf_length buffer) (channels buffer)"

text \<open>\<open>getChannelData(channel)\<close> throws an IndexSizeError for a channel that does not exist.\<close>

definition getChannelData :: "AudioBuffer \<Rightarrow> nat \<Rightarrow> js_error + real list" where
  "getChannelData buffer channel =
     (if channel < numberOfChannels buffer then Inr (channels buffer ! channel)
      else Inl IndexSizeError)"

section \<open>Lip-sync: the amplitude envelope (project-manager.tsx)\<close>

text \<open>
  The inner loop of \<open>analyzeAudio\<close>:
  \<^verbatim>\<open>for (let j = i; j < end; j++) { sum += Math.abs(channelData[j]); }\<close>
  The variable \<open>sum\<close> is named \<open>sum_acc\<close>. The loop only runs with
  \<open>end \<le> channelData.length\<close>, so every read is inside the array.
\<close>

function abs_sum_loop :: "real list \<Rightarrow> nat \<Rightarrow> nat \<Rightarrow> real \<Rightarrow> real" where
  "abs_sum_loop channelData j end sum_acc =
     (if j < end then abs_sum_loop channelData (j + 1) end (sum_acc + \<bar>channelData ! j\<bar>)
      else sum_acc)"
  by pat_completeness auto
termination
  by (relation "measure (\<lambda>(channelData, j, end, sum_acc). end - j)") auto

declare abs_sum_loop.simps [simp del]

text \<open>
  The outer loop:
  \<^verbatim>\<open>for (let i = 0; i < channelData.length; i += frameSize) { ... amplitudes.push(amplitude); }\<close>
  An array holds at most \<open>2^32 - 1\<close> elements and \<open>push\<close> throws a RangeError beyond
  that. With \<open>frameSize \<ge> 1\<close> the loop pushes at most \<open>channelData.length\<close> values,
  which the length of an \<open>AudioBuffer\<close> (an unsigned 32-bit number) keeps within the
  limit, so \<open>push\<close> is an append. With \<open>frameSize = 0\<close> (a sample rate below 30) the
  index never advances: the loop pushes \<open>0 / 0\<close> until \<open>push\<close> throws, and the model
  returns that RangeError at once. The result is an option, \<open>None\<close> standing for a loop
  that does not return; \<open>analyze_loop_returns\<close> below shows that it never occurs.
\<close>

partial_function (option) analyze_loop ::
    "real list \<Rightarrow> nat \<Rightarrow> nat \<Rightarrow> real list \<Rightarrow> (js_error + real list) option" where
  "analyze_loop channelData frameSize i amplitudes =
     (if i < length channelData then
        (if frameSize = 0 then Some (Inl RangeError)
         else (let end = min (i + frameSize) (length channelData);
                   sum_acc = abs_sum_loop channelData i end 0;
                   amplitude = sum_acc / real (end - i)
               in analyze_loop channelData frameSize (i + frameSize) (amplitudes @ [amplitude])))
      else Some (Inr amplitudes))"

text \<open>
  \<open>analyzeAudio\<close>: channel 0, \<open>frameSize = Math.floor(sampleRate / 30)\<close>. The result is
  \<open>Some (Inl e)\<close> when the platform throws and \<open>Some (Inr amplitudes)\<close> otherwise.
\<close>

definition analyzeAudio :: "AudioBuffer \<Rightarrow> (js_error + real list) option" where
  "analyzeAudio audioBuffer =
     (case getChannelData audioBuffer 0 of
        Inl e \<Rightarrow> Some (Inl e)
      | Inr channelData \<Rightarrow>
          (let frameSize = sampleRate audioBuffer div 30
           in analyze_loop channelData frameSize 0 []))"

section \<open>The WAV encoder (voice changer component)\<close>

subsection \<open>\<open>ArrayBuffer\<close> and \<open>DataView\<close>\<close>

text \<open>
  An \<open>ArrayBuffer\<close> is a list of bytes, zero-filled when created. A \<open>DataView\<close> setter
  stores the bytes of its value at a byte offset and throws a RangeError when they do
  not fit. Integer setters take their value modulo the field width (\<open>ToUint16\<close>,
  \<open>ToUint32\<close>, \<open>ToInt16\<close>); \<open>word_of_int\<close> keeps the low eight bits.
\<close>

type_synonym byte = "8 word"

definition new_ArrayBuffer :: "nat \<Rightarrow> byte list" where
  "new_ArrayBuffer n = replicate n 0"

definition store_bytes :: "nat \<Rightarrow> byte list \<Rightarrow> byte list \<Rightarrow> byte list" where
  "store_bytes byteOffset bs view = take byteOffset view @ bs @ drop (byteOffset + length bs) view"

definition int_bytes :: "nat \<Rightarrow> int \<Rightarrow> bool \<Rightarrow> byte list" where
  "int_bytes n v littleEndian =
     (let le = map (\<lambda>k. word_of_int (v div 256 ^ k)) [0..<n]
      in if littleEndian then le else rev le)"

definition setUint8 :: "nat \<Rightarrow> int \<Rightarrow> byte list \<Rightarrow> js_error + byte list" where
  "setUint8 byteOffset v view =
     (if byteOffset + 1 \<le> length view then Inr (store_bytes byteOffset [word_of_int v] view)
      else Inl RangeError)"

definition setUint16 :: "nat \<Rightarrow> int \<Rightarrow> bool \<Rightarrow> byte list \<Rightarrow> js_error + byte list" where
  "setUint16 byteOffset v littleEndian view =
     (if byteOffset + 2 \<le> length view
      then Inr (store_bytes byteOffset (int_bytes 2 v littleEndian) view)
      else Inl RangeError)"

definition setUint32 :: "nat \<Rightarrow> int \<Rightarrow> bool \<Rightarrow> byte list \<Rightarrow> js_error + byte list" where
  "setUint32 byteOffset v littleEndian view =
     (if byteOffset + 4 \<le> length view
      then Inr (store_bytes byteOffset (int_bytes 4 v littleEndian) view)
      else Inl RangeError)"

text \<open>
  \<open>ToInt16\<close> of a JavaScript number: NaN (written \<open>None\<close>) becomes 0, any other number is
  truncated towards zero and then taken modulo \<open>2^16\<close>.
\<close>

definition js_trunc :: "real \<Rightarrow> int" where
  "js_trunc x = (if 0 \<le> x then \<lfloor>x\<rfloor> else \<lceil>x\<rceil>)"

definition setInt16 :: "nat \<Rightarrow> real option \<Rightarrow> bool \<Rightarrow> byte list \<Rightarrow> js_error + byte list" where
  "setInt16 byteOffset v littleEndian view =
     (if byteOffset + 2 \<le> length view
      then Inr (store_bytes byteOffset
                  (int_bytes 2 (case v of None \<Rightarrow> 0 | Some x \<Rightarrow> js_trunc x) littleEndian) view)
      else Inl RangeError)"

text \<open>The getters, used to say what a reader of the file finds at an offset.\<close>

definition bytes_uint :: "byte list \<Rightarrow> bool \<Rightarrow> int" where
  "bytes_uint bs littleEndian =
     foldr (\<lambda>b acc. uint b + 256 * acc) (if littleEndian then bs else rev bs) 0"

definition getUint16 :: "nat \<Rightarrow> bool \<Rightarrow> byte list \<Rightarrow> js_error + int" where
  "getUint16 byteOffset littleEndian view =
     (if byteOffset + 2 \<le> length view
      then Inr (bytes_uint (take 2 (drop byteOffset view)) littleEndian)
      else Inl RangeError)"

definition getUint32 :: "nat \<Rightarrow> bool \<Rightarrow> byte list \<Rightarrow> js_error + int" where
  "getUint32 byteOffset littleEndian view =
     (if byteOffset + 4 \<le> length view
      then Inr (bytes_uint (take 4 (drop byteOffset view)) littleEndian)
      else Inl RangeError)"

definition getInt16 :: "nat \<Rightarrow> bool \<Rightarrow> byte list \<Rightarrow> js_error + int" where
  "getInt16 byteOffset littleEndian view =
     (if byteOffset + 2 \<le> length view
      then (let u = bytes_uint (take 2 (drop byteOffset view)) littleEndian
            in Inr (if u < 2 ^ 15 then u else u - 2 ^ 16))
      else Inl RangeError)"

definition getString :: "nat \<Rightarrow> nat \<Rightarrow> byte list \<Rightarrow> js_error + string" where
  "getString byteOffset n view =
     (if byteOffset + n \<le> length view
      then Inr (map (\<lambda>b. char_of (unat b)) (take n (drop byteOffset view)))
      else Inl RangeError)"

subsection \<open>\<open>audioBufferToBlob\<close>\<close>

text \<open>Running setters one after the other; the first exception ends the run.\<close>

fun run_all :: "('s \<Rightarrow> js_error + 's) list \<Rightarrow> 's \<Rightarrow> js_error + 's" where
  "run_all [] s = Inr s"
| "run_all (f # fs) s = (case f s of Inl e \<Rightarrow> Inl e | Inr s' \<Rightarrow> run_all fs s')"

text \<open>
  \<^verbatim>\<open>const writeString = (offset, string) => {
    for (let i = 0; i < string.length; i++) view.setUint8(offset + i, string.charCodeAt(i)); }\<close>
\<close>

function writeString_loop :: "nat \<Rightarrow> string \<Rightarrow> nat \<Rightarrow> byte list \<Rightarrow> js_error + byte list" where
  "writeString_loop offset string i view =
     (if i < length string then
        (case setUint8 (offset + i) (of_char (string ! i)) view of
           Inl e \<Rightarrow> Inl e
         | Inr view' \<Rightarrow> writeString_loop offset string (i + 1) view')
      else Inr view)"
  by pat_completeness auto
termination
  by (relation "measure (\<lambda>(offset, string, i, view). length string - i)") auto

declare writeString_loop.simps [simp del]

definition writeString :: "nat \<Rightarrow> string \<Rightarrow> byte list \<Rightarrow> js_error + byte list" where
  "writeString offset string view = writeString_loop offset string 0 view"

text \<open>
  The inner loop over the channels of frame \<open>i\<close>:
  \<^verbatim>\<open>const sample = Math.max(-1, Math.min(1, buffer.getChannelData(channel)[i]));
  view.setInt16(offset, sample * 0x7FFF, true); offset += 2;\<close>
  Reading a \<open>Float32Array\<close> past its end gives \<open>undefined\<close>, which \<open>Math.min\<close> turns
  into NaN (\<open>None\<close>); inside the array the sample is clamped and scaled.
\<close>

function channel_loop :: "AudioBuffer \<Rightarrow> nat \<Rightarrow> nat \<Rightarrow> byte list \<times> nat \<Rightarrow> js_error + byte list \<times> nat" where
  "channel_loop buffer i channel (view, offset) =
     (if channel < numberOfChannels buffer then
        (case getChannelData buffer channel of
           Inl e \<Rightarrow> Inl e
         | Inr data \<Rightarrow>
             (let sample = (if i < length data then Some (max (- 1) (min 1 (data ! i))) else None)
              in case setInt16 offset (map_option (\<lambda>s. s * 32767) sample) True view of
                   Inl e \<Rightarrow> Inl e
                 | Inr view' \<Rightarrow> channel_loop buffer i (channel + 1) (view', offset + 2)))
      else Inr (view, offset))"
  by pat_completeness auto
termination
  by (relation "measure (\<lambda>(buffer, i, channel, st). numberOfChannels buffer - channel)") auto

declare channel_loop.simps [simp del]

function frame_loop :: "AudioBuffer \<Rightarrow> nat \<Rightarrow> byte list \<times> nat \<Rightarrow> js_error + byte list \<times> nat" where
  "frame_loop buffer i st =
     (if i < buf_length buffer then
        (case channel_loop buffer i 0 st of
           Inl e \<Rightarrow> Inl e
         | Inr st' \<Rightarrow> frame_loop buffer (i + 1) st')
      else Inr st)"
  by pat_completeness auto
termination
  by (relation "measure (\<lambda>(buffer, i, st). buf_length buffer - i)") auto

declare frame_loop.simps [simp del]

text \<open>
  \<open>audioBufferToBlob\<close>: allocate \<open>44 + length * numberOfChannels * 2\<close> bytes, write the
  header, then the samples from offset 44. The result is the content of the Blob (its
  type is \<open>audio/wav\<close>).
\<close>

definition audioBufferToBlob :: "AudioBuffer \<Rightarrow> js_error + byte list" where
  "audioBufferToBlob buffer =
     (let len = buf_length buffer;
          nch = numberOfChannels buffer;
          rate = sampleRate buffer;
          arrayBuffer = new_ArrayBuffer (44 + len * nch * 2)
      in case run_all
             [writeString 0 ''RIFF'',
              setUint32 4 (int (36 + len * nch * 2)) True,
              writeString 8 ''WAVE'',
              writeString 12 ''fmt '',
              setUint32 16 16 True,
              setUint16 20 1 True,
              setUint16 22 (int nch) True,
              setUint32 24 (int rate) True,
              setUint32 28 (int (rate * nch * 2)) True,
              setUint16 32 (int (nch * 2)) True,
              setUint16 34 16 True,
              writeString 36 ''data'',
              setUint32 40 (int (len * nch * 2)) True]
             arrayBuffer of
           Inl e \<Rightarrow> Inl e
         | Inr view \<Rightarrow>
             (case frame_loop buffer 0 (view, 44) of
                Inl e \<Rightarrow> Inl e
              | Inr (view', offset) \<Rightarrow> Inr view'))"

text \<open>
  The layout of section 4.1 of the specification, written as one list: the header fields
  in file order, then the frames, each frame holding one 16-bit sample per channel.
\<close>

definition pcm16 :: "real \<Rightarrow> int" where
  "pcm16 x = js_trunc (max (- 1) (min 1 x) * 32767)"

definition ascii :: "string \<Rightarrow> byte list" where
  "ascii s = map of_char s"

definition wav_header :: "AudioBuffer \<Rightarrow> byte list" where
  "wav_header buffer =
     ascii ''RIFF'' @ int_bytes 4 (int (36 + buf_length buffer * numberOfChannels buffer * 2)) True @
     ascii ''WAVE'' @
     ascii ''fmt '' @ int_bytes 4 16 True @
     int_bytes 2 1 True @
     int_bytes 2 (int (numberOfChannels buffer)) True @
     int_bytes 4 (int (sampleRate buffer)) True @
     int_bytes 4 (int (sampleRate buffer * numberOfChannels buffer * 2)) True @
     int_bytes 2 (int (numberOfChannels buffer * 2)) True @
     int_bytes 2 16 True @
     ascii ''data'' @ int_bytes 4 (int (buf_length buffer * numberOfChannels buffer * 2)) True"

definition wav_frame :: "AudioBuffer \<Rightarrow> nat \<Rightarrow> byte list" where
  "wav_frame buffer i =
     concat (map (\<lambda>channel. int_bytes 2 (pcm16 (channels buffer ! channel ! i)) True)
               [0..<numberOfChannels buffer])"

definition wav_body :: "AudioBuffer \<Rightarrow> byte list" where
  "wav_body buffer = concat (map (wav_frame buffer) [0..<buf_length buffer])"

text \<open>Reading a 32-bit header field back from the encoded file.\<close>

definition blob_uint32 :: "nat \<Rightarrow> AudioBuffer \<Rightarrow> js_error + int" where
  "blob_uint32 byteOffset buffer =
     (case audioBufferToBlob buffer of
        Inl e \<Rightarrow> Inl e
      | Inr bytes \<Rightarrow> getUint32 byteOffset True bytes)"

section \<open>The voice changer: effects render\<close>

subsection \<open>Presets and settings\<close>

record voice_type =
  vt_value :: string
  vt_label :: string
  vt_description :: string
  vt_pitch :: real
  vt_formant :: real
  vt_preview :: string

definition voiceTypes :: "voice_type list" where
  "voiceTypes =
     [\<lparr>vt_value = ''male-to-female'', vt_label = ''Male to Female'',
       vt_description = ''Higher pitch, softer tone'', vt_pitch = 15 / 10, vt_formant = 12 / 10,
       vt_preview = ''/audio/preview-male-to-female.mp3''\<rparr>,
      \<lparr>vt_value = ''female-to-male'', vt_label = ''Female to Male'',
       vt_description = ''Lower pitch, deeper tone'', vt_pitch = 7 / 10, vt_formant = 8 / 10,
       vt_preview = ''/audio/preview-female-to-male.mp3''\<rparr>,
      \<lparr>vt_value = ''adult-to-child'', vt_label = ''Adult to Child'',
       vt_description = ''Higher pitch, faster speed'', vt_pitch = 18 / 10, vt_formant = 14 / 10,
       vt_preview = ''/audio/preview-adult-to-child.mp3''\<rparr>,
      \<lparr>vt_value = ''child-to-adult'', vt_label = ''Child to Adult'',
       vt_description = ''Lower pitch, slower speed'', vt_pitch = 6 / 10, vt_formant = 7 / 10,
       vt_preview = ''/audio/preview-child-to-adult.mp3''\<rparr>,
      \<lparr>vt_value = ''robot'', vt_label = ''Robot Voice'',
       vt_description = ''Robotic modulation effect'', vt_pitch = 1, vt_formant = 1,
       vt_preview = ''/audio/preview-robot.mp3''\<rparr>,
      \<lparr>vt_value = ''elderly'', vt_label = ''Elderly Voice'',
       vt_description = ''Tremolo and slower speech'', vt_pitch = 9 / 10, vt_formant = 9 / 10,
       vt_preview = ''/audio/preview-elderly.mp3''\<rparr>]"

text \<open>
  The component state \<open>settings\<close>. Every field is a slider value, a one-element array in
  the source; the record holds that element (\<open>settings.pitch[0]\<close> and so on).
\<close>

record voice_settings =
  pitch :: real
  speed :: real
  reverb :: real
  echo :: real
  distortion :: real

subsection \<open>The Web Audio platform\<close>

text \<open>
  The source builds a graph of Web Audio nodes and lets the browser render it. A node is
  modelled by the signal it produces: a sample for every channel and every frame. Gain
  nodes and the mixing of several connections into one input are fixed by the Web Audio
  specification and written out. What the browser computes inside a source, convolver,
  delay or wave-shaper node, and the draws of \<open>Math.random\<close>, are parameters, collected
  in a \<open>platform\<close>; \<open>delay_node\<close> is given the feedback gain of the cycle
  \<open>delay \<rightarrow> feedback \<rightarrow> delay\<close> and stands for the output of the delay inside that cycle.
\<close>

type_synonym signal = "nat \<Rightarrow> nat \<Rightarrow> real"

record OfflineAudioContext =
  ctx_numberOfChannels :: nat
  ctx_length :: nat
  ctx_sampleRate :: nat

record platform =
  source_node :: "AudioBuffer \<Rightarrow> real \<Rightarrow> signal"
  convolver_node :: "AudioBuffer \<Rightarrow> signal \<Rightarrow> signal"
  delay_node :: "OfflineAudioContext \<Rightarrow> real \<Rightarrow> real \<Rightarrow> signal \<Rightarrow> signal"
  waveshaper_node :: "real list \<Rightarrow> string \<Rightarrow> signal \<Rightarrow> signal"
  random :: "nat \<Rightarrow> real"

definition gain_node :: "real \<Rightarrow> signal \<Rightarrow> signal" where
  "gain_node g input = (\<lambda>channel n. g * input channel n)"

definition mix :: "signal \<Rightarrow> signal \<Rightarrow> signal" where
  "mix a b = (\<lambda>channel n. a channel n + b channel n)"

text \<open>
  \<open>startRendering\<close> resolves with a buffer that has the channel count, length and sample
  rate the context was constructed with, holding the signal that reaches the destination.
  The constructor's validation of its arguments is not modelled: the source passes it the
  dimensions of an existing \<open>AudioBuffer\<close>.
\<close>

definition startRendering :: "OfflineAudioContext \<Rightarrow> signal \<Rightarrow> AudioBuffer" where
  "startRendering context destination =
     \<lparr>sampleRate = ctx_sampleRate context,
      buf_length = ctx_length context,
      channels = map (\<lambda>channel. map (destination channel) [0..<ctx_length context])
                     [0..<ctx_numberOfChannels context]\<rparr>"

subsection \<open>Impulse response and distortion curve\<close>

text \<open>
  \<open>createReverbImpulse\<close>: two channels of \<open>sampleRate * 2\<close> frames,
  \<open>(Math.random() * 2 - 1) * (1 - i / length)^2 * intensity\<close>. The draws are taken in
  the order of the loops: channel 0 first.
\<close>

definition createReverbImpulse :: "(nat \<Rightarrow> real) \<Rightarrow> OfflineAudioContext \<Rightarrow> real \<Rightarrow> AudioBuffer" where
  "createReverbImpulse rnd context intensity =
     (let len = ctx_sampleRate context * 2
      in \<lparr>sampleRate = ctx_sampleRate context,
          buf_length = len,
          channels = map (\<lambda>channel.
                       map (\<lambda>i. let decay = (1 - real i / real len) ^ 2
                                in (rnd (channel * len + i) * 2 - 1) * decay * intensity)
                           [0..<len])
                     [0..<2]\<rparr>)"

text \<open>
  \<open>createDistortionCurve\<close>: 44100 entries,
  \<open>((3 + amount) * x * 20 * deg) / (Math.PI + amount * Math.abs(x))\<close> with
  \<open>x = (i * 2) / samples - 1\<close> and \<open>deg = Math.PI / 180\<close>.
\<close>

definition createDistortionCurve :: "real \<Rightarrow> real list" where
  "createDistortionCurve amount =
     (let samples = 44100; deg = pi / 180
      in map (\<lambda>i. let x = (real i * 2) / real samples - 1
                   in ((3 + amount) * x * 20 * deg) / (pi + amount * \<bar>x\<bar>))
             [0..<samples])"

subsection \<open>\<open>applyVoiceTransformation\<close>\<close>

text \<open>
  The flag \<open>audioContext\<close> says whether the component's audio context exists. The three
  conditional blocks of the source each replace \<open>currentNode\<close>; \<open>settings.distortion[0] || 0.5\<close>
  is 0.5 exactly when the slider is at 0.
\<close>

definition applyVoiceTransformation ::
    "platform \<Rightarrow> bool \<Rightarrow> string \<Rightarrow> voice_settings \<Rightarrow> AudioBuffer \<Rightarrow> js_error + AudioBuffer" where
  "applyVoiceTransformation P audioContext selectedVoiceType settings buffer =
     (if \<not> audioContext then Inl (Error ''Audio context not initialized'')
      else case find (\<lambda>type. vt_value type = selectedVoiceType) voiceTypes of
        None \<Rightarrow> Inl (Error ''Voice type not found'')
      | Some selectedType \<Rightarrow>
          (let offlineContext = \<lparr>ctx_numberOfChannels = numberOfChannels buffer,
                                 ctx_length = buf_length buffer,
                                 ctx_sampleRate = sampleRate buffer\<rparr>;
               pitchShift = vt_pitch selectedType * pitch settings;
               source = source_node P buffer pitchShift;
               currentNode = source;
               currentNode =
                 (if reverb settings > 0 then
                    (let impulseBuffer = createReverbImpulse (random P) offlineContext (reverb settings);
                         convolver = convolver_node P impulseBuffer currentNode;
                         wetGain = gain_node (reverb settings * (3 / 10)) convolver;
                         dryGain = gain_node (1 - reverb settings * (3 / 10)) currentNode;
                         outputGain = gain_node 1 (mix dryGain wetGain)
                     in outputGain)
                  else currentNode);
               currentNode =
                 (if echo settings > 0 then
                    (let delay = delay_node P offlineContext (3 / 10) (echo settings * (4 / 10)) currentNode;
                         wetGain = gain_node (echo settings * (5 / 10)) delay;
                         dryGain = gain_node (1 - echo settings * (3 / 10)) currentNode;
                         outputGain = gain_node 1 (mix dryGain wetGain)
                     in outputGain)
                  else currentNode);
               currentNode =
                 (if selectedVoiceType = ''robot'' \<or> distortion settings > 0 then
                    waveshaper_node P
                      (createDistortionCurve
                         (if distortion settings \<noteq> 0 then distortion settings else 5 / 10))
                      ''4x'' currentNode
                  else currentNode)
           in Inr (startRendering offlineContext currentNode)))"

text \<open>
  The rate-stage-only pipeline of the specification: the source, played at
  \<open>basePitch * pitchMultiplier\<close>, connected straight to the destination.
\<close>

definition rate_stage_only ::
    "platform \<Rightarrow> bool \<Rightarrow> string \<Rightarrow> voice_settings \<Rightarrow> AudioBuffer \<Rightarrow> js_error + AudioBuffer" where
  "rate_stage_only P audioContext selectedVoiceType settings buffer =
     (if \<not> audioContext then Inl (Error ''Audio context not initialized'')
      else case find (\<lambda>type. vt_value type = selectedVoiceType) voiceTypes of
        None \<Rightarrow> Inl (Error ''Voice type not found'')
      | Some selectedType \<Rightarrow>
          Inr (startRendering
                 \<lparr>ctx_numberOfChannels = numberOfChannels buffer,
                  ctx_length = buf_length buffer,
                  ctx_sampleRate = sampleRate buffer\<rparr>
                 (source_node P buffer (vt_pitch selectedType * pitch settings))))"

text \<open>One sample of the rendered buffer, and the frame count of the rendered buffer.\<close>

definition rendered_sample ::
    "platform \<Rightarrow> string \<Rightarrow> voice_settings \<Rightarrow> AudioBuffer \<Rightarrow> nat \<Rightarrow> nat \<Rightarrow> js_error + real" where
  "rendered_sample P selectedVoiceType settings buffer channel i =
     (case applyVoiceTransformation P True selectedVoiceType settings buffer of
        Inl e \<Rightarrow> Inl e
      | Inr out \<Rightarrow> Inr (channels out ! channel ! i))"

definition rendered_length ::
    "platform \<Rightarrow> string \<Rightarrow> voice_settings \<Rightarrow> AudioBuffer \<Rightarrow> js_error + nat" where
  "rendered_length P selectedVoiceType settings buffer =
     (case applyVoiceTransformation P True selectedVoiceType settings buffer of
        Inl e \<Rightarrow> Inl e
      | Inr out \<Rightarrow> Inr (buf_length out))"

subsection \<open>A reference platform\<close>

text \<open>
  One concrete platform, used to run the render on concrete inputs. The source node plays
  the buffer with linear interpolation and is silent after its end; the convolver is the
  plain convolution sum; the delay is a whole number of frames (at least one) with its
  feedback; the wave shaper looks its curve up with linear interpolation between the
  two nearest entries, as the Web Audio specification defines it, and ignores
  oversampling; every random draw is \<open>1 / 2\<close>.
\<close>

definition ref_source :: "AudioBuffer \<Rightarrow> real \<Rightarrow> signal" where
  "ref_source buffer rate channel n =
     (if channel < numberOfChannels buffer \<and> 0 < rate then
        (let data = channels buffer ! channel;
             position = real n * rate;
             k = nat \<lfloor>position\<rfloor>;
             f = position - real k
         in if k + 1 < length data then (1 - f) * data ! k + f * data ! (k + 1)
            else if k < length data then (1 - f) * data ! k
            else 0)
      else 0)"

definition ref_convolver :: "AudioBuffer \<Rightarrow> signal \<Rightarrow> signal" where
  "ref_convolver impulse input channel n =
     (if channel < numberOfChannels impulse then
        (\<Sum>k\<leftarrow>[0..<min (Suc n) (buf_length impulse)].
            channels impulse ! channel ! k * input channel (n - k))
      else 0)"

function ref_delay_line :: "nat \<Rightarrow> real \<Rightarrow> (nat \<Rightarrow> real) \<Rightarrow> nat \<Rightarrow> real" where
  "ref_delay_line d g input n =
     (if n < Suc d then 0
      else input (n - Suc d) + g * ref_delay_line d g input (n - Suc d))"
  by pat_completeness auto
termination
  by (relation "measure (\<lambda>(d, g, input, n). n)") auto

declare ref_delay_line.simps [simp del]

definition ref_delay :: "OfflineAudioContext \<Rightarrow> real \<Rightarrow> real \<Rightarrow> signal \<Rightarrow> signal" where
  "ref_delay context delayTime feedback input channel n =
     ref_delay_line (nat \<lfloor>delayTime * real (ctx_sampleRate context)\<rfloor> - 1) feedback (input channel) n"

definition ref_waveshaper :: "real list \<Rightarrow> string \<Rightarrow> signal \<Rightarrow> signal" where
  "ref_waveshaper curve oversample input channel n =
     (let N = length curve;
          v = (real N - 1) / 2 * (input channel n + 1)
      in if v \<le> 0 then curve ! 0
         else if real N - 1 \<le> v then curve ! (N - 1)
         else (let k = nat \<lfloor>v\<rfloor>; f = v - real k
               in (1 - f) * curve ! k + f * curve ! (k + 1)))"

definition ref_platform :: platform where
  "ref_platform =
     \<lparr>source_node = ref_source,
      convolver_node = ref_convolver,
      delay_node = ref_delay,
      waveshaper_node = ref_waveshaper,
      random = (\<lambda>n. 1 / 2)\<rparr>"

section \<open>Double arithmetic: properties\<close>

subsection \<open>Rounding to an integer, ties to even\<close>

lemma round_ties_even_cases:
  "round_ties_even r = \<lfloor>r\<rfloor> \<or> round_ties_even r = \<lfloor>r\<rfloor> + 1"
  by (simp add: round_ties_even_def Let_def)

lemma round_ties_even_of_int [simp]: "round_ties_even (of_int m) = m"
  by (simp add: round_ties_even_def Let_def)

lemma round_ties_even_mono:
  assumes "r \<le> s"
  shows "round_ties_even r \<le> round_ties_even s"
proof (cases "\<lfloor>r\<rfloor> = \<lfloor>s\<rfloor>")
  case True
  then have "r - of_int \<lfloor>r\<rfloor> \<le> s - of_int \<lfloor>s\<rfloor>" using assms by simp
  then show ?thesis using True by (auto simp: round_ties_even_def Let_def)
next
  case False
  moreover have "\<lfloor>r\<rfloor> \<le> \<lfloor>s\<rfloor>" using assms by (rule floor_mono)
  ultimately have "\<lfloor>r\<rfloor> + 1 \<le> \<lfloor>s\<rfloor>" by simp
  moreover have "round_ties_even r \<le> \<lfloor>r\<rfloor> + 1"
    using round_ties_even_cases [of r] by auto
  moreover have "\<lfloor>s\<rfloor> \<le> round_ties_even s"
    using round_ties_even_cases [of s] by auto
  ultimately show ?thesis by linarith
qed

lemma round_ties_even_minus: "round_ties_even (- r) = - round_ties_even r"
proof (cases "r \<in> \<int>")
  case True
  then obtain m where "r = of_int m" by (auto elim: Ints_cases)
  then show ?thesis by (simp flip: of_int_minus)
next
  case False
  let ?f = "\<lfloor>r\<rfloor>"
  have ne: "r \<noteq> of_int ?f"
  proof
    assume "r = of_int ?f"
    then have "r \<in> \<int>" by (metis Ints_of_int)
    with False show False by simp
  qed
  have fl: "\<lfloor>- r\<rfloor> = - ?f - 1"
    using ne by (simp add: floor_minus ceiling_altdef)
  have d: "- r - of_int (- ?f - 1) = 1 - (r - of_int ?f)" by simp
  have ev: "even (- ?f - 1) \<longleftrightarrow> odd ?f" by simp
  show ?thesis
    unfolding round_ties_even_def Let_def fl d ev
    by (auto simp: algebra_simps)
qed

subsection \<open>Rounding to a double is monotone\<close>

lemma pow2_ratio_53: "(2::real) powr (a + 1) / 2 powr (a - 52) = 2 powr 53"
proof -
  have "(2::real) powr (a + 1) / 2 powr (a - 52) = 2 powr ((a + 1) - (a - 52))"
    by (rule powr_diff [symmetric])
  then show ?thesis by simp
qed
lemma pow2_ratio_52: "(2::real) powr a / 2 powr (a - 52) = 2 powr 52"
proof -
  have "(2::real) powr a / 2 powr (a - 52) = 2 powr (a - (a - 52))"
    by (rule powr_diff [symmetric])
  then show ?thesis by simp
qed
lemma pow2_times_53: "(2::real) powr 53 * 2 powr (a - 52) = 2 powr (a + 1)"
proof -
  have "(2::real) powr 53 * 2 powr (a - 52) = 2 powr (53 + (a - 52))"
    by (rule powr_add [symmetric])
  then show ?thesis by (simp add: algebra_simps)
qed
lemma pow2_times_52: "(2::real) powr 52 * 2 powr (a - 52) = 2 powr a"
proof -
  have "(2::real) powr 52 * 2 powr (a - 52) = 2 powr (52 + (a - 52))"
    by (rule powr_add [symmetric])
  then show ?thesis by simp
qed
lemma pow2_53_int: "(2::real) powr 53 = of_int (2 ^ 53)" by simp
lemma pow2_52_int: "(2::real) powr 52 = of_int (2 ^ 52)" by simp
lemma le_pow2_53: "(m::int) \<le> 2 ^ 53 \<Longrightarrow> real_of_int m \<le> 2 powr 53"
proof -
  assume "m \<le> 2 ^ 53"
  then have "real_of_int m \<le> real_of_int (2 ^ 53)" by (simp only: of_int_le_iff)
  then show ?thesis by simp
qed
lemma pow2_52_le: "2 ^ 52 \<le> (m::int) \<Longrightarrow> 2 powr 52 \<le> real_of_int m"
proof -
  assume "2 ^ 52 \<le> m"
  then have "real_of_int (2 ^ 52) \<le> real_of_int m" by (simp only: of_int_le_iff)
  then show ?thesis by simp
qed
lemma max_step: "max (a::int) c + 1 \<le> max b c \<Longrightarrow> c \<le> b \<and> max b c = b"
  by arith

lemma double_round_minus: "double_round (- x) = - double_round x"
  by (simp add: double_round_def Let_def round_ties_even_minus)

lemma binade_bounds:
  assumes "0 < x"
  shows "2 powr of_int \<lfloor>log 2 x\<rfloor> \<le> x" and "x < 2 powr (of_int \<lfloor>log 2 x\<rfloor> + 1)"
  using floor_log_eq_powr_iff [of x 2 "\<lfloor>log 2 x\<rfloor>"] assms by simp_all

lemma double_round_pos:
  assumes "0 < x"
  defines "e \<equiv> max \<lfloor>log 2 x\<rfloor> (- 1022)"
  shows "double_round x = of_int (round_ties_even (x / 2 powr (of_int e - 52))) * 2 powr (of_int e - 52)"
  using assms by (simp add: double_round_def Let_def)

lemma double_round_upper:
  assumes "0 < x"
  shows "double_round x \<le> 2 powr (of_int (max \<lfloor>log 2 x\<rfloor> (- 1022)) + 1)"
proof -
  let ?e = "max \<lfloor>log 2 x\<rfloor> (- 1022)"
  let ?u = "(2::real) powr (real_of_int ?e - 52)"
  have u: "0 < ?u" by simp
  have "x < 2 powr (of_int \<lfloor>log 2 x\<rfloor> + 1)" using assms by (rule binade_bounds)
  also have "\<dots> \<le> 2 powr (of_int ?e + 1)" by (intro powr_mono) simp_all
  finally have "x / ?u \<le> 2 powr (of_int ?e + 1) / ?u"
    using u by (simp add: divide_right_mono)
  also have "2 powr (of_int ?e + 1) / ?u = 2 powr 53"
    by (rule pow2_ratio_53)
  also have "(2::real) powr 53 = of_int (2 ^ 53)"
    by (rule pow2_53_int)
  finally have "round_ties_even (x / ?u) \<le> round_ties_even (of_int (2 ^ 53))"
    by (rule round_ties_even_mono)
  then have "round_ties_even (x / ?u) \<le> 2 ^ 53" by (simp only: round_ties_even_of_int)
  then have "real_of_int (round_ties_even (x / ?u)) \<le> 2 powr 53"
    by (rule le_pow2_53)
  then have "of_int (round_ties_even (x / ?u)) * ?u \<le> 2 powr 53 * ?u"
    using u by (simp add: mult_right_mono)
  also have "2 powr 53 * ?u = 2 powr (of_int ?e + 1)"
    by (rule pow2_times_53)
  finally show ?thesis using assms by (simp only: double_round_pos)
qed

lemma double_round_lower:
  assumes "0 < x" and "- 1022 \<le> \<lfloor>log 2 x\<rfloor>"
  shows "2 powr of_int \<lfloor>log 2 x\<rfloor> \<le> double_round x"
proof -
  let ?e = "max \<lfloor>log 2 x\<rfloor> (- 1022)"
  let ?u = "(2::real) powr (real_of_int ?e - 52)"
  have e: "?e = \<lfloor>log 2 x\<rfloor>" using assms(2) by simp
  have u: "0 < ?u" by simp
  have "2 powr of_int ?e \<le> x" unfolding e using assms(1) by (rule binade_bounds)
  then have "2 powr of_int ?e / ?u \<le> x / ?u" using u by (simp add: divide_right_mono)
  moreover have "2 powr of_int ?e / ?u = 2 powr 52"
    by (rule pow2_ratio_52)
  ultimately have "of_int (2 ^ 52) \<le> x / ?u" by (simp only: pow2_52_int)
  then have "round_ties_even (of_int (2 ^ 52)) \<le> round_ties_even (x / ?u)"
    by (rule round_ties_even_mono)
  then have "2 ^ 52 \<le> round_ties_even (x / ?u)" by (simp only: round_ties_even_of_int)
  then have "2 powr 52 \<le> real_of_int (round_ties_even (x / ?u))"
    by (rule pow2_52_le)
  then have "2 powr 52 * ?u \<le> of_int (round_ties_even (x / ?u)) * ?u"
    using u by (simp add: mult_right_mono)
  moreover have "2 powr 52 * ?u = 2 powr of_int ?e"
    by (rule pow2_times_52)
  ultimately have "2 powr of_int ?e \<le> double_round x"
    using assms(1) by (simp only: double_round_pos)
  then show ?thesis by (simp only: e)
qed

lemma double_round_nonneg:
  assumes "0 \<le> x"
  shows "0 \<le> double_round x"
proof (cases "x = 0")
  case True
  then show ?thesis by (simp add: double_round_def)
next
  case False
  with assms have x: "0 < x" by simp
  let ?u = "(2::real) powr (real_of_int (max \<lfloor>log 2 x\<rfloor> (- 1022)) - 52)"
  have "real_of_int 0 \<le> x / ?u" using x by simp
  then have "round_ties_even (of_int 0) \<le> round_ties_even (x / ?u)"
    by (rule round_ties_even_mono)
  then have "0 \<le> round_ties_even (x / ?u)" by (simp only: round_ties_even_of_int)
  then show ?thesis using x by (simp add: double_round_pos)
qed

lemma double_round_mono_pos:
  assumes "0 < x" and "x \<le> y"
  shows "double_round x \<le> double_round y"
proof -
  have y: "0 < y" using assms by simp
  let ?ex = "max \<lfloor>log 2 x\<rfloor> (- 1022)"
  let ?ey = "max \<lfloor>log 2 y\<rfloor> (- 1022)"
  have "log 2 x \<le> log 2 y" using assms by simp
  then have fl: "\<lfloor>log 2 x\<rfloor> \<le> \<lfloor>log 2 y\<rfloor>" by (rule floor_mono)
  then have le: "?ex \<le> ?ey" by simp
  show ?thesis
  proof (cases "?ex = ?ey")
    case True
    let ?u = "(2::real) powr (real_of_int ?ex - 52)"
    have "x / ?u \<le> y / ?u" using assms(2) by (simp add: divide_right_mono)
    then have "round_ties_even (x / ?u) \<le> round_ties_even (y / ?u)"
      by (rule round_ties_even_mono)
    then have "of_int (round_ties_even (x / ?u)) * ?u \<le> of_int (round_ties_even (y / ?u)) * ?u"
      by (simp add: mult_right_mono)
    then show ?thesis
      using assms(1) y True by (simp only: double_round_pos)
  next
    case False
    with le have lt: "?ex + 1 \<le> ?ey" by simp
    from max_step [OF lt]
    have normal: "- 1022 \<le> \<lfloor>log 2 y\<rfloor>" and ey: "?ey = \<lfloor>log 2 y\<rfloor>" by blast+
    have "double_round x \<le> 2 powr (of_int ?ex + 1)"
      using assms(1) by (rule double_round_upper)
    also have "\<dots> \<le> 2 powr of_int ?ey"
    proof (intro powr_mono)
      have "real_of_int (?ex + 1) \<le> real_of_int ?ey" using lt by (simp only: of_int_le_iff)
      then show "real_of_int ?ex + 1 \<le> real_of_int ?ey" by simp
    qed simp
    also have "\<dots> = 2 powr of_int \<lfloor>log 2 y\<rfloor>" by (simp only: ey)
    also have "\<dots> \<le> double_round y" using y normal by (rule double_round_lower)
    finally show ?thesis .
  qed
qed

lemma double_round_mono:
  assumes "x \<le> y"
  shows "double_round x \<le> double_round y"
proof -
  consider "0 < x" | "x \<le> 0" "0 \<le> y" | "y < 0" by linarith
  then show ?thesis
  proof cases
    case 1
    then show ?thesis using assms by (rule double_round_mono_pos)
  next
    case 2
    have "0 \<le> double_round (- x)" using 2(1) by (intro double_round_nonneg) simp
    then have "double_round x \<le> 0" by (simp add: double_round_minus)
    also have "0 \<le> double_round y" using 2(2) by (rule double_round_nonneg)
    finally show ?thesis .
  next
    case 3
    then have "0 < - y" "- y \<le> - x" using assms by simp_all
    then have "double_round (- y) \<le> double_round (- x)" by (rule double_round_mono_pos)
    then show ?thesis by (simp add: double_round_minus)
  qed
qed

lemma js_times_mono_right:
  "0 \<le> t \<Longrightarrow> a \<le> b \<Longrightarrow> js_times t a \<le> js_times t b"
  unfolding js_times_def by (intro double_round_mono mult_left_mono)

lemma js_times_antimono_right:
  "t \<le> 0 \<Longrightarrow> a \<le> b \<Longrightarrow> js_times t b \<le> js_times t a"
  unfolding js_times_def by (intro double_round_mono mult_left_mono_neg)

subsection \<open>Values of the literals and of the band edges\<close>

text \<open>
  A real number of the binade \<open>2^(-n) \<le> x < 2^(1-n)\<close> rounds to a multiple of
  \<open>2^(-n-52)\<close>.
\<close>

lemma double_round_eval:
  assumes "1 / 2 ^ n \<le> x" and "x < 2 / 2 ^ n" and "n \<le> 1022"
  shows "double_round x = of_int (round_ties_even (x * 2 ^ (n + 52))) / 2 ^ (n + 52)"
proof -
  have pos: "0 < x"
  proof -
    have "(0::real) < 1 / 2 ^ n" by simp
    also note assms(1)
    finally show ?thesis .
  qed
  have p: "(2::real) powr (- real n) = 1 / 2 ^ n"
    by (simp add: powr_minus powr_realpow divide_inverse)
  have p1: "(2::real) powr (- real n + 1) = 2 / 2 ^ n"
  proof -
    have "(2::real) powr (- real n + 1) = 2 powr (- real n) * 2 powr 1" by (rule powr_add)
    then show ?thesis by (simp add: p)
  qed
  have "2 powr real_of_int (- int n) \<le> x \<and> x < 2 powr (real_of_int (- int n) + 1)"
    using assms(1,2) p p1 by simp
  then have "\<lfloor>log 2 x\<rfloor> = - int n"
    using pos by (simp only: floor_log_eq_powr_iff [of x 2 "- int n"]) simp
  then have e: "max \<lfloor>log 2 \<bar>x\<bar>\<rfloor> (- 1022) = - int n"
    using assms(3) pos by simp
  have u: "(2::real) powr (real_of_int (- int n) - 52) = 1 / 2 ^ (n + 52)"
  proof -
    have "real_of_int (- int n) - 52 = - real (n + 52)" by simp
    then have "(2::real) powr (real_of_int (- int n) - 52) = 2 powr (- real (n + 52))" by simp
    also have "\<dots> = 1 / 2 ^ (n + 52)"
    proof -
      have "(2::real) powr real (n + 52) = 2 ^ (n + 52)" by (rule powr_realpow) simp
      then show ?thesis by (simp only: powr_minus inverse_eq_divide)
    qed
    finally show ?thesis .
  qed
  have "double_round x = of_int (round_ties_even (x / (1 / 2 ^ (n + 52)))) * (1 / 2 ^ (n + 52))"
    using pos by (simp only: double_round_def Let_def e u) simp
  then show ?thesis by simp
qed

lemma lit_0_3: "double_round (3 / 10) = 5404319552844595 / 2 ^ 54"
  using double_round_eval [of 2 "3 / 10"] by (simp add: round_ties_even_def Let_def)

lemma lit_0_6: "double_round (6 / 10) = 5404319552844595 / 2 ^ 53"
  using double_round_eval [of 1 "6 / 10"] by (simp add: round_ties_even_def Let_def)

lemma lit_0_8: "double_round (8 / 10) = 3602879701896397 / 2 ^ 52"
  using double_round_eval [of 1 "8 / 10"] by (simp add: round_ties_even_def Let_def)

lemma edge1_tenth: "js_times (1 / 10) (double_round (3 / 10)) = 1080863910568919 / 2 ^ 55"
  unfolding js_times_def lit_0_3
  using double_round_eval [of 6 "1 / 10 * (5404319552844595 / 2 ^ 54)"] by (simp add: round_ties_even_def Let_def)

lemma edge2_tenth: "js_times (1 / 10) (double_round (6 / 10)) = 1080863910568919 / 2 ^ 54"
  unfolding js_times_def lit_0_6
  using double_round_eval [of 5 "1 / 10 * (5404319552844595 / 2 ^ 53)"] by (simp add: round_ties_even_def Let_def)

lemma edge3_tenth: "js_times (1 / 10) (double_round (8 / 10)) = 5764607523034235 / 2 ^ 56"
  unfolding js_times_def lit_0_8
  using double_round_eval [of 4 "1 / 10 * (3602879701896397 / 2 ^ 52)"] by (simp add: round_ties_even_def Let_def)

lemma edge1_double_tenth:
  "js_times (3602879701896397 / 2 ^ 55) (double_round (3 / 10)) = 1080863910568919 / 2 ^ 55"
  unfolding js_times_def lit_0_3
  using double_round_eval [of 6 "3602879701896397 / 2 ^ 55 * (5404319552844595 / 2 ^ 54)"] by (simp add: round_ties_even_def Let_def)

lemma edge2_double_tenth:
  "js_times (3602879701896397 / 2 ^ 55) (double_round (6 / 10)) = 1080863910568919 / 2 ^ 54"
  unfolding js_times_def lit_0_6
  using double_round_eval [of 5 "3602879701896397 / 2 ^ 55 * (5404319552844595 / 2 ^ 53)"] by (simp add: round_ties_even_def Let_def)

lemma edge3_double_tenth:
  "js_times (3602879701896397 / 2 ^ 55) (double_round (8 / 10)) = 1441151880758559 / 2 ^ 54"
  unfolding js_times_def lit_0_8
  using double_round_eval [of 4 "3602879701896397 / 2 ^ 55 * (3602879701896397 / 2 ^ 52)"] by (simp add: round_ties_even_def Let_def)

text \<open>The doubles written 0.1, 0.03 and 0.06 in the source.\<close>

lemma lit_0_1: "double_round (1 / 10) = 3602879701896397 / 2 ^ 55"
  using double_round_eval [of 4 "1 / 10"] by (simp add: round_ties_even_def Let_def)

lemma lit_0_03: "double_round (3 / 100) = 1080863910568919 / 2 ^ 55"
  using double_round_eval [of 6 "3 / 100"] by (simp add: round_ties_even_def Let_def)

lemma lit_0_06: "double_round (6 / 100) = 1080863910568919 / 2 ^ 54"
  using double_round_eval [of 5 "6 / 100"] by (simp add: round_ties_even_def Let_def)

section \<open>Lip-sync: properties of the mouth shapes\<close>

subsection \<open>The window and the majority vote\<close>

lemma slice_window:
  assumes "3 \<le> i" "i + 3 < length xs"
  shows "slice_arr xs (int i - 3) (int i + 3 + 1) = map (\<lambda>k. xs ! k) [i - 3..<i + 4]"
proof -
  have "slice_arr xs (int i - 3) (int i + 3 + 1) = take 7 (drop (i - 3) xs)"
    using assms by (simp add: slice_arr_def Let_def nat_diff_distrib' min_def)
  also have "\<dots> = map (\<lambda>k. xs ! k) [i - 3..<i + 4]"
  proof (rule nth_equalityI)
    show "length (take 7 (drop (i - 3) xs)) = length (map ((!) xs) [i - 3..<i + 4])"
      using assms by simp
  next
    fix k assume "k < length (take 7 (drop (i - 3) xs))"
    then show "take 7 (drop (i - 3) xs) ! k = map ((!) xs) [i - 3..<i + 4] ! k"
      using assms by (simp add: add.commute)
  qed
  finally show ?thesis .
qed

lemma step_count:
  "mostCommon_step a b arr = (if count_list arr b \<le> count_list arr a then a else b)"
  by (simp add: mostCommon_step_def count_list_eq_length_filter)
    (metis (mono_tags, lifting) filter_cong)

lemma fold_step_mem:
  "foldl (\<lambda>a b. mostCommon_step a b w) a ys \<in> insert a (set ys)"
  by (induction ys arbitrary: a) (auto simp: step_count)

lemma fold_step_ge_init:
  "count_list w a \<le> count_list w (foldl (\<lambda>a b. mostCommon_step a b w) a ys)"
proof (induction ys arbitrary: a)
  case Nil
  show ?case by simp
next
  case (Cons y ys)
  have "count_list w a \<le> count_list w (mostCommon_step a y w)"
    by (simp add: step_count)
  also have "\<dots> \<le> count_list w (foldl (\<lambda>a b. mostCommon_step a b w) (mostCommon_step a y w) ys)"
    by (rule Cons.IH)
  finally show ?case by simp
qed

lemma fold_step_ge_all:
  "y \<in> set ys \<Longrightarrow> count_list w y \<le> count_list w (foldl (\<lambda>a b. mostCommon_step a b w) a ys)"
proof (induction ys arbitrary: a)
  case Nil
  then show ?case by simp
next
  case (Cons z zs)
  show ?case
  proof (cases "y = z")
    case True
    have "count_list w y \<le> count_list w (mostCommon_step a z w)"
      using True by (simp add: step_count)
    also have "\<dots> \<le> count_list w (foldl (\<lambda>a b. mostCommon_step a b w) (mostCommon_step a z w) zs)"
      by (rule fold_step_ge_init)
    finally show ?thesis by simp
  next
    case False
    with Cons.prems have "y \<in> set zs" by simp
    then show ?thesis using Cons.IH by simp
  qed
qed

lemma fold_step_keep:
  "count_list w (foldl (\<lambda>a b. mostCommon_step a b w) a ys) = count_list w a
   \<Longrightarrow> foldl (\<lambda>a b. mostCommon_step a b w) a ys = a"
proof (induction ys arbitrary: a)
  case Nil
  show ?case by simp
next
  case (Cons y ys)
  let ?a' = "mostCommon_step a y w"
  have up: "count_list w a \<le> count_list w ?a'" by (simp add: step_count)
  have "count_list w ?a' \<le> count_list w (foldl (\<lambda>a b. mostCommon_step a b w) ?a' ys)"
    by (rule fold_step_ge_init)
  with Cons.prems up have eq: "count_list w (foldl (\<lambda>a b. mostCommon_step a b w) ?a' ys) = count_list w ?a'"
    and eq2: "count_list w ?a' = count_list w a" by simp_all
  from Cons.IH [OF eq] have "foldl (\<lambda>a b. mostCommon_step a b w) ?a' ys = ?a'" .
  moreover from eq2 have "?a' = a" by (simp add: step_count split: if_splits)
  ultimately show ?case by simp
qed

lemma fold_step_first:
  assumes "k < length ys"
    and "count_list w (ys ! k) = count_list w (foldl (\<lambda>a b. mostCommon_step a b w) a ys)"
  shows "foldl (\<lambda>a b. mostCommon_step a b w) a ys = a
         \<or> (\<exists>j\<le>k. ys ! j = foldl (\<lambda>a b. mostCommon_step a b w) a ys)"
  using assms
proof (induction ys arbitrary: a k)
  case Nil
  then show ?case by simp
next
  case (Cons y ys)
  let ?a' = "mostCommon_step a y w"
  let ?r = "foldl (\<lambda>a b. mostCommon_step a b w) ?a' ys"
  have r: "foldl (\<lambda>a b. mostCommon_step a b w) a (y # ys) = ?r" by simp
  have a': "?a' = a \<or> ?a' = y" by (simp add: step_count)
  show ?case
  proof (cases k)
    case 0
    with Cons.prems have c: "count_list w y = count_list w ?r" by simp
    have "count_list w y \<le> count_list w ?a'" by (simp add: step_count)
    moreover have "count_list w ?a' \<le> count_list w ?r" by (rule fold_step_ge_init)
    ultimately have "count_list w ?r = count_list w ?a'" using c by simp
    then have "?r = ?a'" by (rule fold_step_keep)
    with a' show ?thesis unfolding r by auto
  next
    case (Suc k')
    with Cons.prems have "k' < length ys" "count_list w (ys ! k') = count_list w ?r" by simp_all
    from Cons.IH [OF this] have "?r = ?a' \<or> (\<exists>j\<le>k'. ys ! j = ?r)" .
    then show ?thesis
    proof
      assume "?r = ?a'"
      with a' show ?thesis unfolding r by auto
    next
      assume "\<exists>j\<le>k'. ys ! j = ?r"
      then obtain j where "j \<le> k'" "ys ! j = ?r" by blast
      then have "Suc j \<le> k" "(y # ys) ! Suc j = ?r" using Suc by simp_all
      then show ?thesis unfolding r by blast
    qed
  qed
qed

lemma window_nonempty: "3 \<le> i \<Longrightarrow> map ((!) xs) [i - 3..<i + 4] \<noteq> []"
  by simp

lemma smooth_loop_result:
  assumes "length smoothed = length shapes" "3 \<le> i"
  shows "\<exists>out. smooth_loop shapes i smoothed = Inr out \<and> length out = length shapes \<and>
           (\<forall>k<length shapes.
              if i \<le> k \<and> k + 3 < length shapes
              then reduce mostCommon_step (map ((!) shapes) [k - 3..<k + 4]) = Inr (out ! k)
              else out ! k = smoothed ! k)"
  using assms
proof (induction shapes i smoothed rule: smooth_loop.induct)
  case (1 shapes i smoothed)
  show ?case
  proof (cases "int i < int (length shapes) - 3")
    case False
    then show ?thesis using "1.prems" by (subst smooth_loop.simps) auto
  next
    case True
    then have i3: "i + 3 < length shapes" by linarith
    let ?w = "map ((!) shapes) [i - 3..<i + 4]"
    have sl: "slice_arr shapes (int i - 3) (int i + 3 + 1) = ?w"
      using "1.prems" i3 by (intro slice_window)
    obtain x xs where w: "?w = x # xs"
      using "1.prems" by (cases ?w) simp_all
    define m where "m = foldl (\<lambda>a b. mostCommon_step a b (x # xs)) x xs"
    have red: "reduce mostCommon_step ?w = Inr m"
      unfolding w m_def by simp
    have step: "smooth_loop shapes i smoothed = smooth_loop shapes (i + 1) (smoothed[i := m])"
      using True sl red by (subst smooth_loop.simps) simp
    have "\<exists>out. smooth_loop shapes (i + 1) (smoothed[i := m]) = Inr out \<and> length out = length shapes \<and>
           (\<forall>k<length shapes.
              if i + 1 \<le> k \<and> k + 3 < length shapes
              then reduce mostCommon_step (map ((!) shapes) [k - 3..<k + 4]) = Inr (out ! k)
              else out ! k = (smoothed[i := m]) ! k)"
      using "1.IH" [OF True sl [THEN arg_cong [where f = "reduce mostCommon_step"], unfolded red]] "1.prems"
      by simp
    then obtain out where out: "smooth_loop shapes (i + 1) (smoothed[i := m]) = Inr out"
      "length out = length shapes"
      "\<forall>k<length shapes.
              if i + 1 \<le> k \<and> k + 3 < length shapes
              then reduce mostCommon_step (map ((!) shapes) [k - 3..<k + 4]) = Inr (out ! k)
              else out ! k = (smoothed[i := m]) ! k"
      by blast
    have "\<forall>k<length shapes.
              if i \<le> k \<and> k + 3 < length shapes
              then reduce mostCommon_step (map ((!) shapes) [k - 3..<k + 4]) = Inr (out ! k)
              else out ! k = smoothed ! k"
    proof (intro allI impI)
      fix k assume k: "k < length shapes"
      show "if i \<le> k \<and> k + 3 < length shapes
              then reduce mostCommon_step (map ((!) shapes) [k - 3..<k + 4]) = Inr (out ! k)
              else out ! k = smoothed ! k"
      proof (cases "k = i")
        case True
        with out(3) k i3 "1.prems" red show ?thesis by auto
      next
        case False
        with out(3) k show ?thesis by (auto split: if_splits)
      qed
    qed
    with out step show ?thesis by auto
  qed
qed

lemma reduce_majority:
  assumes "reduce mostCommon_step w = Inr r"
  shows "r \<in> set w"
    and "\<forall>y\<in>set w. count_list w y \<le> count_list w r"
    and "\<forall>k<length w. count_list w (w ! k) = count_list w r \<longrightarrow> (\<exists>j\<le>k. w ! j = r)"
proof -
  from assms obtain x xs where w: "w = x # xs" and r: "r = foldl (\<lambda>a b. mostCommon_step a b w) x xs"
    by (cases w) auto
  show "r \<in> set w"
    using fold_step_mem [of w x xs] by (simp add: r w)
  show "\<forall>y\<in>set w. count_list w y \<le> count_list w r"
  proof
    fix y assume "y \<in> set w"
    then consider "y = x" | "y \<in> set xs" by (auto simp: w)
    then show "count_list w y \<le> count_list w r"
    proof cases
      case 1
      then show ?thesis unfolding r by (simp only: fold_step_ge_init)
    next
      case 2
      then show ?thesis unfolding r by (rule fold_step_ge_all)
    qed
  qed
  show "\<forall>k<length w. count_list w (w ! k) = count_list w r \<longrightarrow> (\<exists>j\<le>k. w ! j = r)"
  proof (intro allI impI)
    fix k assume k: "k < length w" and c: "count_list w (w ! k) = count_list w r"
    show "\<exists>j\<le>k. w ! j = r"
    proof (cases k)
      case 0
      with c have "count_list w r = count_list w x" by (simp add: w)
      then have "r = x" unfolding r by (rule fold_step_keep)
      then show ?thesis by (intro exI [of _ 0]) (simp add: w)
    next
      case (Suc k')
      with k c have "k' < length xs" "count_list w (xs ! k') = count_list w r"
        by (simp_all add: w)
      from fold_step_first [OF this [unfolded r]]
      have "r = x \<or> (\<exists>j\<le>k'. xs ! j = r)" unfolding r .
      then show ?thesis
      proof
        assume "r = x"
        then show ?thesis by (intro exI [of _ 0]) (simp add: w)
      next
        assume "\<exists>j\<le>k'. xs ! j = r"
        then obtain j where "j \<le> k'" "xs ! j = r" by blast
        then show ?thesis using Suc by (intro exI [of _ "Suc j"]) (simp add: w)
      qed
    qed
  qed
qed

subsection \<open>Classification\<close>

lemma band_edges_ordered:
  assumes "js_times t (double_round (6 / 10)) \<le> a"
    and "a < js_times t (double_round (8 / 10))"
  shows "js_times t (double_round (3 / 10)) \<le> a"
proof (cases "0 \<le> t")
  case True
  have "double_round (3 / 10) \<le> double_round (6 / 10)"
    by (rule double_round_mono) simp
  with True have "js_times t (double_round (3 / 10)) \<le> js_times t (double_round (6 / 10))"
    by (rule js_times_mono_right)
  with assms(1) show ?thesis by simp
next
  case False
  then have t: "t \<le> 0" by simp
  have "double_round (6 / 10) \<le> double_round (8 / 10)"
    by (rule double_round_mono) simp
  with t have "js_times t (double_round (8 / 10)) \<le> js_times t (double_round (6 / 10))"
    by (rule js_times_antimono_right)
  with assms show ?thesis by simp
qed

text \<open>
  Claim C5, amended: the band edges are the double products the code computes. For every
  envelope and every threshold \<open>t\<close>, with \<open>e1\<close>, \<open>e2\<close>, \<open>e3\<close> the double products of
  \<open>t\<close> with the literals 0.3, 0.6 and 0.8, \<open>generateMouthShapes\<close> maps an amplitude \<open>a\<close>
  to \<open>closed\<close> when \<open>a < e1\<close>, to \<open>slightly-open\<close> when \<open>e1 \<le> a < e2\<close>, to \<open>open\<close> when
  \<open>e2 \<le> a < e3\<close> and to \<open>wide-open\<close> in every other case, and the output has as many
  entries as the envelope.
\<close>

theorem generateMouthShapes_bands:
  "length (generateMouthShapes settings envelope) = length envelope \<and>
   (\<forall>k<length envelope.
      let a = envelope ! k; t = amplitudeThreshold settings;
          e1 = js_times t (double_round (3 / 10));
          e2 = js_times t (double_round (6 / 10));
          e3 = js_times t (double_round (8 / 10));
          shape = generateMouthShapes settings envelope ! k
      in (a < e1 \<longrightarrow> shape = ''closed'') \<and>
         (e1 \<le> a \<and> a < e2 \<longrightarrow> shape = ''slightly-open'') \<and>
         (e2 \<le> a \<and> a < e3 \<longrightarrow> shape = ''open'') \<and>
         (\<not> a < e1 \<and> \<not> (e1 \<le> a \<and> a < e2) \<and> \<not> (e2 \<le> a \<and> a < e3)
            \<longrightarrow> shape = ''wide-open''))"
proof (intro conjI allI impI)
  show "length (generateMouthShapes settings envelope) = length envelope"
    by (simp add: generateMouthShapes_def)
next
  fix k assume k: "k < length envelope"
  let ?a = "envelope ! k"
  let ?t = "amplitudeThreshold settings"
  let ?e1 = "js_times ?t (double_round (3 / 10))"
  let ?e2 = "js_times ?t (double_round (6 / 10))"
  let ?e3 = "js_times ?t (double_round (8 / 10))"
  let ?shape = "generateMouthShapes settings envelope ! k"
  have shape: "?shape = (if ?a < ?e1 then ''closed''
                         else if ?a < ?e2 then ''slightly-open''
                         else if ?a < ?e3 then ''open'' else ''wide-open'')"
    using k unfolding generateMouthShapes_def by (simp only: nth_map)
  have c1: "?a < ?e1 \<longrightarrow> ?shape = ''closed''"
    by (simp only: shape) simp
  have c2: "?e1 \<le> ?a \<and> ?a < ?e2 \<longrightarrow> ?shape = ''slightly-open''"
    by (simp only: shape) simp
  have c3: "?e2 \<le> ?a \<and> ?a < ?e3 \<longrightarrow> ?shape = ''open''"
  proof
    assume h: "?e2 \<le> ?a \<and> ?a < ?e3"
    then have "?e1 \<le> ?a" by (intro band_edges_ordered [of ?t ?a]) simp_all
    with h show "?shape = ''open''" by (simp only: shape) simp
  qed
  have c4: "\<not> ?a < ?e1 \<and> \<not> (?e1 \<le> ?a \<and> ?a < ?e2) \<and> \<not> (?e2 \<le> ?a \<and> ?a < ?e3)
            \<longrightarrow> ?shape = ''wide-open''"
    by (simp only: shape) auto
  show "let a = envelope ! k; t = amplitudeThreshold settings;
          e1 = js_times t (double_round (3 / 10));
          e2 = js_times t (double_round (6 / 10));
          e3 = js_times t (double_round (8 / 10));
          shape = generateMouthShapes settings envelope ! k
      in (a < e1 \<longrightarrow> shape = ''closed'') \<and>
         (e1 \<le> a \<and> a < e2 \<longrightarrow> shape = ''slightly-open'') \<and>
         (e2 \<le> a \<and> a < e3 \<longrightarrow> shape = ''open'') \<and>
         (\<not> a < e1 \<and> \<not> (e1 \<le> a \<and> a < e2) \<and> \<not> (e2 \<le> a \<and> a < e3)
            \<longrightarrow> shape = ''wide-open'')"
    unfolding Let_def using c1 c2 c3 c4 by blast
qed

text \<open>
  The four bands at threshold 0.1, each obtained from the theorem; the edges are the
  doubles written 0.03, 0.06 and 0.08.
\<close>

theorem generateMouthShapes_bands_witness:
  "generateMouthShapes \<lparr>quality = ''enhanced'', smoothing = True, amplitudeThreshold = 1 / 10, mouthScale = 1\<rparr>
       [1 / 100, 1 / 20, 7 / 100, 2 / 5] ! 0 = ''closed'' \<and>
   generateMouthShapes \<lparr>quality = ''enhanced'', smoothing = True, amplitudeThreshold = 1 / 10, mouthScale = 1\<rparr>
       [1 / 100, 1 / 20, 7 / 100, 2 / 5] ! 1 = ''slightly-open'' \<and>
   generateMouthShapes \<lparr>quality = ''enhanced'', smoothing = True, amplitudeThreshold = 1 / 10, mouthScale = 1\<rparr>
       [1 / 100, 1 / 20, 7 / 100, 2 / 5] ! 2 = ''open'' \<and>
   generateMouthShapes \<lparr>quality = ''enhanced'', smoothing = True, amplitudeThreshold = 1 / 10, mouthScale = 1\<rparr>
       [1 / 100, 1 / 20, 7 / 100, 2 / 5] ! 3 = ''wide-open''"
proof -
  let ?s = "\<lparr>quality = ''enhanced'', smoothing = True, amplitudeThreshold = 1 / 10, mouthScale = 1\<rparr>"
  let ?e = "[1 / 100, 1 / 20, 7 / 100, 2 / 5] :: real list"
  note b = generateMouthShapes_bands [of ?s ?e, THEN conjunct2, rule_format,
      unfolded Let_def lipsync_settings.select_convs edge1_tenth edge2_tenth edge3_tenth]
  have "generateMouthShapes ?s ?e ! 0 = ''closed''"
    using b [of 0] by simp
  moreover have "generateMouthShapes ?s ?e ! 1 = ''slightly-open''"
    using b [of 1] by simp
  moreover have "generateMouthShapes ?s ?e ! 2 = ''open''"
    using b [of 2] by simp
  moreover have "generateMouthShapes ?s ?e ! 3 = ''wide-open''"
    using b [of 3] by simp
  ultimately show ?thesis by blast
qed

text \<open>
  Claim C5 as stated puts the edges at the exact products \<open>0.3 t\<close>, \<open>0.6 t\<close> and
  \<open>0.8 t\<close>. At the default threshold, the double written 0.1, the code's edges
  \<open>0.1 * 0.3\<close> and \<open>0.1 * 0.6\<close> are the doubles written 0.03 and 0.06, which lie
  below the exact products. An amplitude equal to the first is below \<open>0.3 t\<close> and one
  equal to the second is below \<open>0.6 t\<close>, yet the code does not find them below its
  edges and labels them \<open>slightly-open\<close> and \<open>open\<close>.
\<close>

theorem generateMouthShapes_exact_edge_counterexample:
  "generateMouthShapes
      \<lparr>quality = ''enhanced'', smoothing = True,
       amplitudeThreshold = 3602879701896397 / 2 ^ 55, mouthScale = 1\<rparr>
      [1080863910568919 / 2 ^ 55, 1080863910568919 / 2 ^ 54] = [''slightly-open'', ''open''] \<and>
   (1080863910568919 / 2 ^ 55 :: real) < 3 / 10 * (3602879701896397 / 2 ^ 55) \<and>
   (1080863910568919 / 2 ^ 54 :: real) < 6 / 10 * (3602879701896397 / 2 ^ 55)"
proof (intro conjI)
  show "generateMouthShapes
      \<lparr>quality = ''enhanced'', smoothing = True,
       amplitudeThreshold = 3602879701896397 / 2 ^ 55, mouthScale = 1\<rparr>
      [1080863910568919 / 2 ^ 55, 1080863910568919 / 2 ^ 54] = [''slightly-open'', ''open'']"
    by (simp only: generateMouthShapes_def lipsync_settings.select_convs
        edge1_double_tenth edge2_double_tenth edge3_double_tenth) simp
  show "(1080863910568919 / 2 ^ 55 :: real) < 3 / 10 * (3602879701896397 / 2 ^ 55)"
    by simp
  show "(1080863910568919 / 2 ^ 54 :: real) < 6 / 10 * (3602879701896397 / 2 ^ 55)"
    by simp
qed

text \<open>
  Claim C6 (scenario B of the specification) expects the envelope
  \<open>[0.05, 0.05, 0.4, 0.4, 0.4, 0.05, 0.05]\<close> at threshold 0.1 to classify as
  \<open>[closed, closed, open, open, open, closed, closed]\<close>. The bands at threshold 0.1 are
  0.03, 0.06 and 0.08: 0.05 lies in the second band and 0.4 above the third, so the
  expected sequence is not what the function returns.
\<close>

theorem scenario_B_counterexample:
  "generateMouthShapes \<lparr>quality = ''enhanced'', smoothing = False, amplitudeThreshold = 1 / 10, mouthScale = 1\<rparr>
       [5 / 100, 5 / 100, 4 / 10, 4 / 10, 4 / 10, 5 / 100, 5 / 100]
   \<noteq> [''closed'', ''closed'', ''open'', ''open'', ''open'', ''closed'', ''closed'']"
  by (simp only: generateMouthShapes_def lipsync_settings.select_convs
      edge1_tenth edge2_tenth edge3_tenth) simp

text \<open>
  Claim C6, amended. With threshold 0.1 and smoothing disabled the envelope
  \<open>[0.05, 0.05, 0.4, 0.4, 0.4, 0.05, 0.05]\<close> classifies as \<open>[slightly-open, slightly-open,
  wide-open, wide-open, wide-open, slightly-open, slightly-open]\<close>, and the disabled
  smoothing returns that sequence unchanged.
\<close>

theorem scenario_B_actual:
  "generateMouthShapes \<lparr>quality = ''enhanced'', smoothing = False, amplitudeThreshold = 1 / 10, mouthScale = 1\<rparr>
       [5 / 100, 5 / 100, 4 / 10, 4 / 10, 4 / 10, 5 / 100, 5 / 100]
     = [''slightly-open'', ''slightly-open'', ''wide-open'', ''wide-open'', ''wide-open'',
        ''slightly-open'', ''slightly-open''] \<and>
   smoothMouthShapes \<lparr>quality = ''enhanced'', smoothing = False, amplitudeThreshold = 1 / 10, mouthScale = 1\<rparr>
       (generateMouthShapes \<lparr>quality = ''enhanced'', smoothing = False, amplitudeThreshold = 1 / 10, mouthScale = 1\<rparr>
          [5 / 100, 5 / 100, 4 / 10, 4 / 10, 4 / 10, 5 / 100, 5 / 100])
     = Inr [''slightly-open'', ''slightly-open'', ''wide-open'', ''wide-open'', ''wide-open'',
        ''slightly-open'', ''slightly-open'']"
proof -
  have g: "generateMouthShapes \<lparr>quality = ''enhanced'', smoothing = False, amplitudeThreshold = 1 / 10, mouthScale = 1\<rparr>
       [5 / 100, 5 / 100, 4 / 10, 4 / 10, 4 / 10, 5 / 100, 5 / 100]
     = [''slightly-open'', ''slightly-open'', ''wide-open'', ''wide-open'', ''wide-open'',
        ''slightly-open'', ''slightly-open'']"
    by (simp only: generateMouthShapes_def lipsync_settings.select_convs
        edge1_tenth edge2_tenth edge3_tenth) simp
  show ?thesis
    unfolding g by (simp add: smoothMouthShapes_def)
qed

subsection \<open>Smoothing\<close>

text \<open>
  Claim C7. \<open>smoothMouthShapes\<close> always returns a sequence as long as its input. With
  smoothing disabled it returns the input. With smoothing enabled every index \<open>i\<close> with
  \<open>3 \<le> i < length - 3\<close> holds a label of the input window \<open>[i - 3, i + 3]\<close> whose
  number of occurrences in that window is maximal and which, among the labels of maximal
  count, is the one met first when the window is scanned from the left; every other
  index keeps its input label.
\<close>

theorem smoothMouthShapes_majority:
  "\<exists>out. smoothMouthShapes settings shapes = Inr out \<and> length out = length shapes \<and>
     (\<not> smoothing settings \<longrightarrow> out = shapes) \<and>
     (smoothing settings \<longrightarrow>
        (\<forall>i<length shapes.
           if 3 \<le> i \<and> i + 3 < length shapes
           then (let w = map ((!) shapes) [i - 3..<i + 4]
                 in out ! i \<in> set w \<and>
                    (\<forall>y\<in>set w. count_list w y \<le> count_list w (out ! i)) \<and>
                    (\<forall>k<length w. count_list w (w ! k) = count_list w (out ! i)
                        \<longrightarrow> (\<exists>j\<le>k. w ! j = out ! i)))
           else out ! i = shapes ! i))"
proof (cases "smoothing settings")
  case False
  then show ?thesis by (simp add: smoothMouthShapes_def)
next
  case True
  from smooth_loop_result [of shapes shapes 3]
  obtain out where out: "smooth_loop shapes 3 shapes = Inr out" "length out = length shapes"
    and each: "\<And>k. k < length shapes \<Longrightarrow>
              if 3 \<le> k \<and> k + 3 < length shapes
              then reduce mostCommon_step (map ((!) shapes) [k - 3..<k + 4]) = Inr (out ! k)
              else out ! k = shapes ! k"
    by auto
  have "if 3 \<le> i \<and> i + 3 < length shapes
           then (let w = map ((!) shapes) [i - 3..<i + 4]
                 in out ! i \<in> set w \<and>
                    (\<forall>y\<in>set w. count_list w y \<le> count_list w (out ! i)) \<and>
                    (\<forall>k<length w. count_list w (w ! k) = count_list w (out ! i)
                        \<longrightarrow> (\<exists>j\<le>k. w ! j = out ! i)))
           else out ! i = shapes ! i" if "i < length shapes" for i
  proof (cases "3 \<le> i \<and> i + 3 < length shapes")
    case False
    with each [OF that] show ?thesis by auto
  next
    case True
    with each [OF that]
    have red: "reduce mostCommon_step (map ((!) shapes) [i - 3..<i + 4]) = Inr (out ! i)" by simp
    from reduce_majority [OF red] True show ?thesis
      unfolding Let_def by (simp only: if_True simp_thms)
  qed
  with out True show ?thesis by (simp add: smoothMouthShapes_def)
qed

text \<open>
  Claim C9. If two shape sequences of the same length agree on the window
  \<open>[i - 3, i + 3]\<close> of an interior index \<open>i\<close>, their smoothed sequences agree at \<open>i\<close>:
  a smoothed frame depends on the input window only, never on frames smoothed before it.
\<close>

theorem smoothMouthShapes_local:
  assumes "length s = length t" and "3 \<le> i" and "i + 3 < length s"
    and "\<forall>k. i - 3 \<le> k \<and> k \<le> i + 3 \<longrightarrow> s ! k = t ! k"
  shows "\<exists>out1 out2. smoothMouthShapes settings s = Inr out1 \<and>
           smoothMouthShapes settings t = Inr out2 \<and> out1 ! i = out2 ! i"
proof (cases "smoothing settings")
  case False
  with assms show ?thesis by (simp add: smoothMouthShapes_def)
next
  case True
  have w: "map ((!) s) [i - 3..<i + 4] = map ((!) t) [i - 3..<i + 4]"
    using assms(4) by simp
  from smooth_loop_result [of s s 3] assms
  obtain out1 where o1: "smooth_loop s 3 s = Inr out1"
    "reduce mostCommon_step (map ((!) s) [i - 3..<i + 4]) = Inr (out1 ! i)"
    by (auto split: if_splits)
  from smooth_loop_result [of t t 3] assms
  obtain out2 where o2: "smooth_loop t 3 t = Inr out2"
    "reduce mostCommon_step (map ((!) t) [i - 3..<i + 4]) = Inr (out2 ! i)"
    by (auto split: if_splits)
  from o1(2) o2(2) w have "out1 ! i = out2 ! i" by simp
  with o1 o2 True show ?thesis by (simp add: smoothMouthShapes_def)
qed

text \<open>
  An eight-frame input: at index 3 \<open>closed\<close> and \<open>open\<close> both occur three times in the
  window and \<open>closed\<close>, met first, wins; at index 4 \<open>open\<close> has the majority; indices 2
  and 5 are boundary frames.
\<close>

theorem smoothMouthShapes_majority_witness:
  "\<exists>out. smoothMouthShapes \<lparr>quality = ''enhanced'', smoothing = True, amplitudeThreshold = 1 / 10, mouthScale = 1\<rparr>
            [''closed'', ''open'', ''open'', ''closed'', ''wide-open'', ''open'', ''closed'', ''open''] = Inr out \<and>
          length out = 8 \<and> out ! 2 = ''open'' \<and> out ! 3 = ''closed'' \<and> out ! 4 = ''open'' \<and> out ! 5 = ''open''"
proof -
  let ?s = "\<lparr>quality = ''enhanced'', smoothing = True, amplitudeThreshold = 1 / 10, mouthScale = 1\<rparr>"
  let ?xs = "[''closed'', ''open'', ''open'', ''closed'', ''wide-open'', ''open'', ''closed'', ''open'']"
  from smoothMouthShapes_majority [of ?s ?xs]
  obtain out where out: "smoothMouthShapes ?s ?xs = Inr out" "length out = length ?xs"
    and each: "\<And>i. i < length ?xs \<Longrightarrow>
           if 3 \<le> i \<and> i + 3 < length ?xs
           then (let w = map ((!) ?xs) [i - 3..<i + 4]
                 in out ! i \<in> set w \<and>
                    (\<forall>y\<in>set w. count_list w y \<le> count_list w (out ! i)) \<and>
                    (\<forall>k<length w. count_list w (w ! k) = count_list w (out ! i)
                        \<longrightarrow> (\<exists>j\<le>k. w ! j = out ! i)))
           else out ! i = ?xs ! i"
    by auto
  have w3: "map ((!) ?xs) [3 - 3..<3 + 4] = [''closed'', ''open'', ''open'', ''closed'', ''wide-open'', ''open'', ''closed'']"
    by (simp add: upt_rec)
  have w4: "map ((!) ?xs) [4 - 3..<4 + 4] = [''open'', ''open'', ''closed'', ''wide-open'', ''open'', ''closed'', ''open'']"
    by (simp add: upt_rec)
  have "out ! 2 = ''open''" using each [of 2] by simp
  moreover have "out ! 5 = ''open''" using each [of 5] by simp
  moreover have "out ! 3 = ''closed''"
  proof -
    from each [of 3] have m: "out ! 3 \<in> {''closed'', ''open'', ''wide-open''}"
      and f: "\<forall>k<7. count_list [''closed'', ''open'', ''open'', ''closed'', ''wide-open'', ''open'', ''closed''] ([''closed'', ''open'', ''open'', ''closed'', ''wide-open'', ''open'', ''closed''] ! k) = count_list [''closed'', ''open'', ''open'', ''closed'', ''wide-open'', ''open'', ''closed''] (out ! 3)
                        \<longrightarrow> (\<exists>j\<le>k. [''closed'', ''open'', ''open'', ''closed'', ''wide-open'', ''open'', ''closed''] ! j = out ! 3)"
      and c: "\<forall>y\<in>{''closed'', ''open'', ''wide-open''}. count_list [''closed'', ''open'', ''open'', ''closed'', ''wide-open'', ''open'', ''closed''] y \<le> count_list [''closed'', ''open'', ''open'', ''closed'', ''wide-open'', ''open'', ''closed''] (out ! 3)"
      unfolding w3 Let_def by auto
    from m c have "out ! 3 \<noteq> ''wide-open''" by auto
    moreover have "out ! 3 \<noteq> ''open''"
    proof
      assume o: "out ! 3 = ''open''"
      from f [rule_format, of 0] show False unfolding o by simp
    qed
    ultimately show ?thesis using m by blast
  qed
  moreover have "out ! 4 = ''open''"
  proof -
    from each [of 4] have m: "out ! 4 \<in> {''closed'', ''open'', ''wide-open''}"
      and c: "\<forall>y\<in>{''closed'', ''open'', ''wide-open''}. count_list [''open'', ''open'', ''closed'', ''wide-open'', ''open'', ''closed'', ''open''] y \<le> count_list [''open'', ''open'', ''closed'', ''wide-open'', ''open'', ''closed'', ''open''] (out ! 4)"
      unfolding w4 Let_def by auto
    from m c show ?thesis by auto
  qed
  ultimately show ?thesis using out by auto
qed

text \<open>Two inputs that differ only at index 7, outside the window of index 3.\<close>

theorem smoothMouthShapes_local_witness:
  "\<exists>out1 out2.
     smoothMouthShapes \<lparr>quality = ''enhanced'', smoothing = True, amplitudeThreshold = 1 / 10, mouthScale = 1\<rparr>
        [''closed'', ''open'', ''open'', ''closed'', ''wide-open'', ''open'', ''closed'', ''open''] = Inr out1 \<and>
     smoothMouthShapes \<lparr>quality = ''enhanced'', smoothing = True, amplitudeThreshold = 1 / 10, mouthScale = 1\<rparr>
        [''closed'', ''open'', ''open'', ''closed'', ''wide-open'', ''open'', ''closed'', ''closed''] = Inr out2 \<and>
     out1 ! 3 = out2 ! 3"
proof -
  let ?s = "[''closed'', ''open'', ''open'', ''closed'', ''wide-open'', ''open'', ''closed'', ''open'']"
  let ?t = "[''closed'', ''open'', ''open'', ''closed'', ''wide-open'', ''open'', ''closed'', ''closed'']"
  have agree: "\<forall>k. 3 - 3 \<le> k \<and> k \<le> 3 + 3 \<longrightarrow> ?s ! k = ?t ! k"
  proof (intro allI impI)
    fix k :: nat assume "3 - 3 \<le> k \<and> k \<le> 3 + 3"
    then have "k \<in> {0, 1, 2, 3, 4, 5, 6}" by auto
    then show "?s ! k = ?t ! k" by auto
  qed
  show ?thesis
    by (rule smoothMouthShapes_local [of ?s ?t 3, OF _ _ _ agree]) simp_all
qed

section \<open>Lip-sync: properties of the amplitude envelope\<close>

lemma abs_sum_loop_eq: "abs_sum_loop x j e s = s + (\<Sum>t = j..<e. \<bar>x ! t\<bar>)"
proof (induction x j e s rule: abs_sum_loop.induct)
  case (1 x j e s)
  show ?case
  proof (cases "j < e")
    case True
    with "1" show ?thesis
      by (subst abs_sum_loop.simps) (simp add: sum.atLeast_Suc_lessThan)
  next
    case False
    then show ?thesis by (subst abs_sum_loop.simps) simp
  qed
qed

lemma window_count: "0 < w \<Longrightarrow> k * w < n \<longleftrightarrow> k < (n + w - 1) div (w::nat)"
proof -
  assume w: "0 < w"
  have "k < (n + w - 1) div w \<longleftrightarrow> Suc k \<le> (n + w - 1) div w" by auto
  also have "\<dots> \<longleftrightarrow> Suc k * w \<le> n + w - 1"
    using w by (simp add: less_eq_div_iff_mult_less_eq)
  also have "\<dots> \<longleftrightarrow> k * w < n" using w by auto
  finally show ?thesis by simp
qed


lemma analyze_loop_result:
  assumes "0 < w"
  shows "analyze_loop x w (k * w) acc =
           Some (Inr (acc @ map (\<lambda>k. (\<Sum>j = k * w..<min (k * w + w) (length x). \<bar>x ! j\<bar>) / real (min (k * w + w) (length x) - k * w))
                         [k..<(length x + w - 1) div w]))"
    (is "_ = Some (Inr (_ @ map ?m _))")
proof (induction "(length x + w - 1) div w - k" arbitrary: k acc)
  case 0
  then have "\<not> k < (length x + w - 1) div w" by simp
  then have "\<not> k * w < length x" using window_count [OF assms] by simp
  then show ?case using 0 by (subst analyze_loop.simps) simp
next
  case (Suc d)
  then have k: "k < (length x + w - 1) div w" by simp
  then have lt: "k * w < length x" using window_count [OF assms] by simp
  have "analyze_loop x w (k * w) acc = analyze_loop x w (Suc k * w) (acc @ [?m k])"
    using lt assms by (subst analyze_loop.simps) (simp add: Let_def abs_sum_loop_eq add.commute)
  also have "\<dots> = Some (Inr ((acc @ [?m k]) @ map ?m [Suc k..<(length x + w - 1) div w]))"
    using Suc.hyps(2) by (intro Suc.hyps(1)) simp
  also have "\<dots> = Some (Inr (acc @ map ?m [k..<(length x + w - 1) div w]))"
    using k by (simp add: upt_conv_Cons)
  finally show ?case .
qed

text \<open>
  With \<open>frameSize = 0\<close> and a sample left to read the loop ends in the RangeError of
  \<open>push\<close>; in every case the loop returns.
\<close>

lemma analyze_loop_zero:
  "i < length x \<Longrightarrow> analyze_loop x 0 i acc = Some (Inl RangeError)"
  by (subst analyze_loop.simps) simp

lemma analyze_loop_returns: "\<exists>r. analyze_loop x w i acc = Some r"
proof (cases "w = 0")
  case True
  show ?thesis
  proof (cases "i < length x")
    case True
    with \<open>w = 0\<close> show ?thesis by (simp add: analyze_loop_zero)
  next
    case False
    then show ?thesis by (subst analyze_loop.simps) simp
  qed
next
  case False
  then have w: "0 < w" by simp
  show ?thesis
  proof (induction "length x - i" arbitrary: i acc rule: less_induct)
    case less
    show ?case
    proof (cases "i < length x")
      case False
      then show ?thesis by (subst analyze_loop.simps) simp
    next
      case True
      let ?e = "min (i + w) (length x)"
      let ?a = "abs_sum_loop x i ?e 0 / real (?e - i)"
      have "length x - (i + w) < length x - i" using True w by simp
      from less [OF this] obtain r where "analyze_loop x w (i + w) (acc @ [?a]) = Some r"
        by blast
      then show ?thesis
        using True w by (subst analyze_loop.simps) (simp add: Let_def)
    qed
  qed
qed

lemma analyze_loop_nonneg:
  assumes "analyze_loop x w i acc = Some (Inr y)"
  shows "(\<forall>v\<in>set acc. 0 \<le> v) \<longrightarrow> (\<forall>v\<in>set y. 0 \<le> v)"
proof -
  have "(\<forall>v\<in>set acc. 0 \<le> v)
          \<longrightarrow> (\<forall>env. (Inr y :: js_error + real list) = Inr env \<longrightarrow> (\<forall>v\<in>set env. 0 \<le> v))"
  proof (rule analyze_loop.raw_induct
      [where P = "\<lambda>x w i acc (r :: js_error + real list). (\<forall>v\<in>set acc. 0 \<le> v)
                       \<longrightarrow> (\<forall>env. r = Inr env \<longrightarrow> (\<forall>v\<in>set env. 0 \<le> v))", OF _ assms])
    fix f :: "real list \<Rightarrow> nat \<Rightarrow> nat \<Rightarrow> real list \<Rightarrow> (js_error + real list) option"
      and x w i acc r
    assume IH: "\<And>x w i acc r. f x w i acc = Some r \<Longrightarrow>
                  (\<forall>v\<in>set acc. 0 \<le> v) \<longrightarrow> (\<forall>env. r = Inr env \<longrightarrow> (\<forall>v\<in>set env. 0 \<le> v))"
      and body: "(if i < length x
        then if w = 0 then Some (Inl RangeError)
             else let end = min (i + w) (length x);
                      sum_acc = abs_sum_loop x i end 0;
                      amplitude = sum_acc / real (end - i)
                  in f x w (i + w) (acc @ [amplitude])
        else Some (Inr acc)) = Some r"
    show "(\<forall>v\<in>set acc. 0 \<le> v) \<longrightarrow> (\<forall>env. r = Inr env \<longrightarrow> (\<forall>v\<in>set env. 0 \<le> v))"
    proof (cases "i < length x")
      case False
      with body show ?thesis by auto
    next
      case True
      show ?thesis
      proof (cases "w = 0")
        case True
        with \<open>i < length x\<close> body show ?thesis by auto
      next
        case False
        let ?e = "min (i + w) (length x)"
        let ?a = "abs_sum_loop x i ?e 0 / real (?e - i)"
        from True False body have "f x w (i + w) (acc @ [?a]) = Some r" by (simp add: Let_def)
        from IH [OF this]
        have "(\<forall>v\<in>set (acc @ [?a]). 0 \<le> v) \<longrightarrow> (\<forall>env. r = Inr env \<longrightarrow> (\<forall>v\<in>set env. 0 \<le> v))" .
        moreover have "0 \<le> ?a" by (simp add: abs_sum_loop_eq sum_nonneg)
        ultimately show ?thesis by auto
      qed
    qed
  qed
  then show ?thesis by simp
qed

lemma ceiling_nat_div:
  assumes "0 < w"
  shows "nat \<lceil>real n / real w\<rceil> = (n + w - 1) div w"
proof -
  let ?q = "(n + w - 1) div w"
  have up: "n \<le> ?q * w" using window_count [OF assms, of ?q n] by simp
  have "\<lceil>real n / real w\<rceil> = int ?q"
  proof (rule ceiling_unique)
    show "real n / real w \<le> of_int (int ?q)"
    proof -
      have "real n \<le> real (?q * w)" using up by (simp only: of_nat_le_iff)
      then show ?thesis using assms by (simp add: pos_divide_le_eq)
    qed
    show "of_int (int ?q) - 1 < real n / real w"
    proof (cases ?q)
      case 0
      have "(- 1 :: real) < 0" by simp
      also have "0 \<le> real n / real w" by simp
      finally show ?thesis using 0 by simp
    next
      case (Suc q')
      then have "q' < ?q" by simp
      then have "q' * w < n" using window_count [OF assms, of q' n] by simp
      then have "real (q' * w) < real n" by (simp only: of_nat_less_iff)
      then have "real q' < real n / real w" using assms by (simp add: pos_less_divide_eq)
      then show ?thesis using Suc by simp
    qed
  qed
  then show ?thesis by simp
qed

lemma analyzeAudio_result:
  assumes "channels b = x # rest" and "30 \<le> sampleRate b"
  shows "analyzeAudio b =
           Some (Inr (map (\<lambda>k. (\<Sum>j = k * (sampleRate b div 30)..<min (k * (sampleRate b div 30) + sampleRate b div 30) (length x). \<bar>x ! j\<bar>)
                               / real (min (k * (sampleRate b div 30) + sampleRate b div 30) (length x) - k * (sampleRate b div 30)))
                          [0..<(length x + sampleRate b div 30 - 1) div (sampleRate b div 30)]))"
proof -
  have w: "0 < sampleRate b div 30" using assms(2) by (simp add: div_greater_zero_iff)
  from analyze_loop_result [OF w, of x 0 "[]"] assms(1) show ?thesis
    by (simp add: analyzeAudio_def getChannelData_def numberOfChannels_def)
qed

text \<open>
  Claim C8. A buffer handed to \<open>analyzeAudio\<close> is an \<open>AudioBuffer\<close> decoded by the
  platform: it is well-formed, has at least one channel, and its sample rate is one the
  platform supports, which is never below 30 (browsers support no rate below 3000 Hz).
  For every such buffer \<open>analyzeAudio\<close> returns, with \<open>x\<close> the samples of channel 0,
  \<open>n\<close> the frame count and \<open>w = floor(sampleRate / 30)\<close>: exactly \<open>ceil(n / w)\<close> values;
  value \<open>k\<close> is the sum of \<open>|x j|\<close> over the window \<open>k w \<le> j < min (k w + w) n\<close> divided
  by the number of samples in that window (so the last, partial window is averaged over
  its own size); all values are 0 when channel 0 is silent; and any buffer with the same
  channel 0 and sample rate gives the same result, whatever its other channels hold.
\<close>

theorem analyzeAudio_envelope:
  assumes "AudioBuffer_ok b" and "1 \<le> numberOfChannels b" and "30 \<le> sampleRate b"
  shows "\<exists>env. analyzeAudio b = Some (Inr env) \<and>
           (let x = channels b ! 0; n = buf_length b; w = sampleRate b div 30
            in length env = nat \<lceil>real n / real w\<rceil> \<and>
               (\<forall>k<length env.
                  env ! k = (\<Sum>j = k * w..<min (k * w + w) n. \<bar>x ! j\<bar>) / real (min (k * w + w) n - k * w)) \<and>
               ((\<forall>j<n. x ! j = 0) \<longrightarrow> (\<forall>k<length env. env ! k = 0)) \<and>
               (\<forall>b'. 1 \<le> numberOfChannels b' \<and> channels b' ! 0 = x \<and> sampleRate b' = sampleRate b
                     \<longrightarrow> analyzeAudio b' = analyzeAudio b))"
proof -
  from assms(2) obtain x rest where ch: "channels b = x # rest"
    by (cases "channels b") (simp_all add: numberOfChannels_def)
  have n: "length x = buf_length b"
    using assms(1) ch by (simp add: AudioBuffer_ok_def)
  have w: "0 < sampleRate b div 30" using assms(3) by (simp add: div_greater_zero_iff)
  let ?w = "sampleRate b div 30"
  let ?n = "buf_length b"
  let ?m = "\<lambda>k. (\<Sum>j = k * ?w..<min (k * ?w + ?w) ?n. \<bar>x ! j\<bar>) / real (min (k * ?w + ?w) ?n - k * ?w)"
  let ?env = "map ?m [0..<(?n + ?w - 1) div ?w]"
  have res: "analyzeAudio b = Some (Inr ?env)"
    using analyzeAudio_result [OF ch assms(3)] by (simp only: n)
  have len: "length ?env = nat \<lceil>real ?n / real ?w\<rceil>"
    by (simp add: ceiling_nat_div [OF w])
  have vals: "\<forall>k<length ?env. ?env ! k = ?m k" by simp
  have zero: "(\<forall>j<?n. x ! j = 0) \<longrightarrow> (\<forall>k<length ?env. ?env ! k = 0)"
  proof (intro impI allI)
    fix k assume z: "\<forall>j<?n. x ! j = 0" and "k < length ?env"
    have "(\<Sum>j = k * ?w..<min (k * ?w + ?w) ?n. \<bar>x ! j\<bar>) = 0"
      using z by (intro sum.neutral) simp
    then show "?env ! k = 0" using \<open>k < length ?env\<close> by simp
  qed
  have only0: "\<forall>b'. 1 \<le> numberOfChannels b' \<and> channels b' ! 0 = x \<and> sampleRate b' = sampleRate b
                     \<longrightarrow> analyzeAudio b' = analyzeAudio b"
  proof (intro allI impI)
    fix b' :: AudioBuffer
    assume a: "1 \<le> numberOfChannels b' \<and> channels b' ! 0 = x \<and> sampleRate b' = sampleRate b"
    then obtain rest' where ch': "channels b' = x # rest'"
      by (cases "channels b'") (simp_all add: numberOfChannels_def)
    from a assms(3) have r': "30 \<le> sampleRate b'" by simp
    show "analyzeAudio b' = analyzeAudio b"
      using analyzeAudio_result [OF ch' r'] analyzeAudio_result [OF ch assms(3)] a by simp
  qed
  have x0: "channels b ! 0 = x" by (simp add: ch)
  show ?thesis
    unfolding Let_def x0
    using res len vals zero only0 by blast
qed

text \<open>
  Outside that range, at a sample rate below 30 with a sample in channel 0, the window
  size is 0 and \<open>analyzeAudio\<close> ends in the RangeError of \<open>push\<close>.
\<close>

lemma analyzeAudio_zero_frameSize:
  assumes "sampleRate b < 30" and "channels b = x # rest" and "x \<noteq> []"
  shows "analyzeAudio b = Some (Inl RangeError)"
  using assms
  by (simp add: analyzeAudio_def getChannelData_def numberOfChannels_def analyze_loop_zero)

text \<open>
  Claim C10. Every value of a sequence returned by \<open>analyzeAudio\<close> is non-negative, for
  every buffer; and a sequence is returned whenever the buffer has a channel and a
  sample rate of at least 30.
\<close>

theorem analyzeAudio_nonneg:
  "(30 \<le> sampleRate b \<and> 1 \<le> numberOfChannels b \<longrightarrow> (\<exists>env. analyzeAudio b = Some (Inr env))) \<and>
   (\<forall>env. analyzeAudio b = Some (Inr env) \<longrightarrow> (\<forall>v\<in>set env. 0 \<le> v))"
proof
  show "30 \<le> sampleRate b \<and> 1 \<le> numberOfChannels b \<longrightarrow> (\<exists>env. analyzeAudio b = Some (Inr env))"
  proof
    assume a: "30 \<le> sampleRate b \<and> 1 \<le> numberOfChannels b"
    then obtain x rest where ch: "channels b = x # rest"
      by (cases "channels b") (simp_all add: numberOfChannels_def)
    from analyzeAudio_result [OF ch] a show "\<exists>env. analyzeAudio b = Some (Inr env)" by blast
  qed
  show "\<forall>env. analyzeAudio b = Some (Inr env) \<longrightarrow> (\<forall>v\<in>set env. 0 \<le> v)"
  proof (intro allI impI)
    fix env assume r: "analyzeAudio b = Some (Inr env)"
    then obtain x where "analyze_loop x (sampleRate b div 30) 0 [] = Some (Inr env)"
      by (auto simp: analyzeAudio_def getChannelData_def Let_def split: if_splits)
    from analyze_loop_nonneg [OF this] show "\<forall>v\<in>set env. 0 \<le> v" by simp
  qed
qed

text \<open>
  Seven frames at 90 Hz: windows of three samples, the last one holding a single sample.
\<close>

theorem analyzeAudio_envelope_witness:
  "\<exists>env. analyzeAudio \<lparr>sampleRate = 90, buf_length = 7,
                         channels = [[1 / 2, - 1 / 2, 1 / 4, 0, - 1, 1 / 2, - 3 / 4], [0, 0, 0, 0, 0, 0, 0]]\<rparr>
            = Some (Inr env) \<and>
         length env = 3 \<and> env ! 0 = 5 / 12 \<and> env ! 1 = 1 / 2 \<and> env ! 2 = 3 / 4"
proof -
  let ?b = "\<lparr>sampleRate = 90, buf_length = 7,
             channels = [[1 / 2, - 1 / 2, 1 / 4, 0, - 1, 1 / 2, - 3 / 4], [0, 0, 0, 0, 0, 0, 0]]\<rparr>"
  have ok: "AudioBuffer_ok ?b" by (simp add: AudioBuffer_ok_def)
  have ch: "1 \<le> numberOfChannels ?b" by (simp add: numberOfChannels_def)
  have sr: "30 \<le> sampleRate ?b" by simp
  have c: "\<lceil>(7::real) / 3\<rceil> = 3" by (simp add: ceiling_eq_iff)
  from analyzeAudio_envelope [OF ok ch sr]
  obtain env where env: "analyzeAudio ?b = Some (Inr env)" "length env = 3"
    and vals: "\<And>k. k < 3 \<Longrightarrow>
        env ! k = (\<Sum>j = k * 3..<min (k * 3 + 3) 7. \<bar>[1 / 2, - 1 / 2, 1 / 4, 0, - 1, 1 / 2, - 3 / 4] ! j\<bar>)
                    / real (min (k * 3 + 3) 7 - k * 3)"
    unfolding Let_def by (auto simp: c)
  have "env ! 0 = 5 / 12" using vals [of 0] by (simp add: sum.atLeast_Suc_lessThan)
  moreover have "env ! 1 = 1 / 2" using vals [of 1] by (simp add: sum.atLeast_Suc_lessThan)
  moreover have "env ! 2 = 3 / 4" using vals [of 2] by (simp add: sum.atLeast_Suc_lessThan)
  ultimately show ?thesis using env by blast
qed

text \<open>Three frames at 44100 Hz.\<close>

theorem analyzeAudio_nonneg_witness:
  "\<exists>env. analyzeAudio \<lparr>sampleRate = 44100, buf_length = 3, channels = [[1 / 2, - 1 / 4, 1]]\<rparr>
            = Some (Inr env) \<and> (\<forall>v\<in>set env. 0 \<le> v)"
proof -
  let ?b = "\<lparr>sampleRate = 44100, buf_length = 3, channels = [[1 / 2, - 1 / 4, 1]]\<rparr>"
  have "30 \<le> sampleRate ?b \<and> 1 \<le> numberOfChannels ?b" by (simp add: numberOfChannels_def)
  with analyzeAudio_nonneg [of ?b] show ?thesis by blast
qed

section \<open>The WAV encoder: properties\<close>

subsection \<open>Writing into the buffer\<close>

lemma length_int_bytes [simp]: "length (int_bytes n v le) = n"
  by (simp add: int_bytes_def Let_def)

lemma length_ascii [simp]: "length (ascii s) = length s"
  by (simp add: ascii_def)

lemma store_bytes_append:
  "length pre = off \<Longrightarrow> length bs \<le> length rest \<Longrightarrow>
   store_bytes off bs (pre @ rest) = (pre @ bs) @ drop (length bs) rest"
  by (simp add: store_bytes_def)

lemma setUint8_append:
  "length pre = off \<Longrightarrow> 1 \<le> length rest \<Longrightarrow>
   setUint8 off v (pre @ rest) = Inr ((pre @ [word_of_int v]) @ drop 1 rest)"
  by (simp add: setUint8_def store_bytes_append)

lemma setUint16_append:
  "length pre = off \<Longrightarrow> 2 \<le> length rest \<Longrightarrow>
   setUint16 off v le (pre @ rest) = Inr ((pre @ int_bytes 2 v le) @ drop 2 rest)"
  by (simp add: setUint16_def store_bytes_append)

lemma setUint32_append:
  "length pre = off \<Longrightarrow> 4 \<le> length rest \<Longrightarrow>
   setUint32 off v le (pre @ rest) = Inr ((pre @ int_bytes 4 v le) @ drop 4 rest)"
  by (simp add: setUint32_def store_bytes_append)

lemma setInt16_append:
  "length pre = off \<Longrightarrow> 2 \<le> length rest \<Longrightarrow>
   setInt16 off (Some x) le (pre @ rest) = Inr ((pre @ int_bytes 2 (js_trunc x) le) @ drop 2 rest)"
  by (simp add: setInt16_def store_bytes_append)

lemma writeString_loop_append:
  assumes "length pre = off" and "i \<le> length s" and "length s - i \<le> length rest"
  shows "writeString_loop off s i ((pre @ ascii (take i s)) @ rest)
           = Inr ((pre @ ascii s) @ drop (length s - i) rest)"
  using assms
proof (induction "length s - i" arbitrary: i rest)
  case 0
  then show ?case by (subst writeString_loop.simps) simp
next
  case (Suc d)
  then have i: "i < length s" by simp
  have one: "1 \<le> length rest" using Suc.hyps(2) Suc.prems(3) by simp
  let ?V = "(pre @ ascii (take i s)) @ rest"
  let ?X = "((pre @ ascii (take i s)) @ [word_of_int (of_char (s ! i))]) @ drop 1 rest"
  have su: "setUint8 (off + i) (of_char (s ! i)) ?V = Inr ?X"
    using Suc.prems i one by (intro setUint8_append) simp_all
  have X_eq: "?X = (pre @ ascii (take (Suc i) s)) @ drop 1 rest"
    using i by (simp add: ascii_def take_Suc_conv_app_nth of_int_of_char)
  have "writeString_loop off s i ?V =
          (case setUint8 (off + i) (of_char (s ! i)) ?V of
             Inl e \<Rightarrow> Inl e
           | Inr view' \<Rightarrow> writeString_loop off s (i + 1) view')"
    by (subst writeString_loop.simps) (simp only: i if_True)
  also have "\<dots> = writeString_loop off s (i + 1) ?X"
    by (simp only: su sum.case)
  also have "\<dots> = writeString_loop off s (Suc i) ((pre @ ascii (take (Suc i) s)) @ drop 1 rest)"
    by (simp only: X_eq Suc_eq_plus1)
  finally have step: "writeString_loop off s i ?V
      = writeString_loop off s (Suc i) ((pre @ ascii (take (Suc i) s)) @ drop 1 rest)" .
  have "writeString_loop off s (Suc i) ((pre @ ascii (take (Suc i) s)) @ drop 1 rest)
          = Inr ((pre @ ascii s) @ drop (length s - Suc i) (drop 1 rest))"
    using Suc.hyps(2) Suc.prems i by (intro Suc.hyps(1)) simp_all
  also have "drop (length s - Suc i) (drop 1 rest) = drop (length s - i) rest"
  proof -
    have "length s - Suc i + 1 = length s - i" using i by simp
    then show ?thesis by (simp only: drop_drop)
  qed
  finally show ?case by (simp only: step)
qed

lemma writeString_append:
  assumes "length pre = off" and "length s \<le> length rest"
  shows "writeString off s (pre @ rest) = Inr ((pre @ ascii s) @ drop (length s) rest)"
  using writeString_loop_append [OF assms(1), of 0 s rest] assms(2)
  by (simp add: writeString_def ascii_def)

lemma header_written:
  "run_all
     [writeString 0 ''RIFF'',
      setUint32 4 v1 True,
      writeString 8 ''WAVE'',
      writeString 12 ''fmt '',
      setUint32 16 v2 True,
      setUint16 20 v3 True,
      setUint16 22 v4 True,
      setUint32 24 v5 True,
      setUint32 28 v6 True,
      setUint16 32 v7 True,
      setUint16 34 v8 True,
      writeString 36 ''data'',
      setUint32 40 v9 True]
     (new_ArrayBuffer (44 + n))
   = Inr ((ascii ''RIFF'' @ int_bytes 4 v1 True @ ascii ''WAVE'' @ ascii ''fmt '' @
           int_bytes 4 v2 True @ int_bytes 2 v3 True @ int_bytes 2 v4 True @ int_bytes 4 v5 True @
           int_bytes 4 v6 True @ int_bytes 2 v7 True @ int_bytes 2 v8 True @ ascii ''data'' @
           int_bytes 4 v9 True) @ replicate n 0)"
proof -
  have w0: "writeString 0 ''RIFF'' (new_ArrayBuffer (44 + n)) = Inr (ascii ''RIFF'' @ replicate (40 + n) 0)"
    using writeString_append [of "[]" 0 "''RIFF''" "replicate (44 + n) 0"]
    by (simp add: new_ArrayBuffer_def)
  have w1: "setUint32 4 v1 True (ascii ''RIFF'' @ replicate (40 + n) 0)
              = Inr ((ascii ''RIFF'' @ int_bytes 4 v1 True) @ replicate (36 + n) 0)"
    by (subst setUint32_append) simp_all
  have w2: "writeString 8 ''WAVE'' ((ascii ''RIFF'' @ int_bytes 4 v1 True) @ replicate (36 + n) 0)
              = Inr (((ascii ''RIFF'' @ int_bytes 4 v1 True) @ ascii ''WAVE'') @ replicate (32 + n) 0)"
    by (subst writeString_append) simp_all
  let ?p3 = "(ascii ''RIFF'' @ int_bytes 4 v1 True) @ ascii ''WAVE''"
  have w3: "writeString 12 ''fmt '' (?p3 @ replicate (32 + n) 0)
              = Inr ((?p3 @ ascii ''fmt '') @ replicate (28 + n) 0)"
    by (subst writeString_append) simp_all
  let ?p4 = "?p3 @ ascii ''fmt ''"
  have w4: "setUint32 16 v2 True (?p4 @ replicate (28 + n) 0)
              = Inr ((?p4 @ int_bytes 4 v2 True) @ replicate (24 + n) 0)"
    by (subst setUint32_append) simp_all
  let ?p5 = "?p4 @ int_bytes 4 v2 True"
  have w5: "setUint16 20 v3 True (?p5 @ replicate (24 + n) 0)
              = Inr ((?p5 @ int_bytes 2 v3 True) @ replicate (22 + n) 0)"
    by (subst setUint16_append) simp_all
  let ?p6 = "?p5 @ int_bytes 2 v3 True"
  have w6: "setUint16 22 v4 True (?p6 @ replicate (22 + n) 0)
              = Inr ((?p6 @ int_bytes 2 v4 True) @ replicate (20 + n) 0)"
    by (subst setUint16_append) simp_all
  let ?p7 = "?p6 @ int_bytes 2 v4 True"
  have w7: "setUint32 24 v5 True (?p7 @ replicate (20 + n) 0)
              = Inr ((?p7 @ int_bytes 4 v5 True) @ replicate (16 + n) 0)"
    by (subst setUint32_append) simp_all
  let ?p8 = "?p7 @ int_bytes 4 v5 True"
  have w8: "setUint32 28 v6 True (?p8 @ replicate (16 + n) 0)
              = Inr ((?p8 @ int_bytes 4 v6 True) @ replicate (12 + n) 0)"
    by (subst setUint32_append) simp_all
  let ?p9 = "?p8 @ int_bytes 4 v6 True"
  have w9: "setUint16 32 v7 True (?p9 @ replicate (12 + n) 0)
              = Inr ((?p9 @ int_bytes 2 v7 True) @ replicate (10 + n) 0)"
    by (subst setUint16_append) simp_all
  let ?p10 = "?p9 @ int_bytes 2 v7 True"
  have w10: "setUint16 34 v8 True (?p10 @ replicate (10 + n) 0)
              = Inr ((?p10 @ int_bytes 2 v8 True) @ replicate (8 + n) 0)"
    by (subst setUint16_append) simp_all
  let ?p11 = "?p10 @ int_bytes 2 v8 True"
  have w11: "writeString 36 ''data'' (?p11 @ replicate (8 + n) 0)
              = Inr ((?p11 @ ascii ''data'') @ replicate (4 + n) 0)"
    by (subst writeString_append) simp_all
  let ?p12 = "?p11 @ ascii ''data''"
  have w12: "setUint32 40 v9 True (?p12 @ replicate (4 + n) 0)
              = Inr ((?p12 @ int_bytes 4 v9 True) @ replicate n 0)"
    by (subst setUint32_append) simp_all
  have "run_all
     [writeString 0 ''RIFF'',
      setUint32 4 v1 True,
      writeString 8 ''WAVE'',
      writeString 12 ''fmt '',
      setUint32 16 v2 True,
      setUint16 20 v3 True,
      setUint16 22 v4 True,
      setUint32 24 v5 True,
      setUint32 28 v6 True,
      setUint16 32 v7 True,
      setUint16 34 v8 True,
      writeString 36 ''data'',
      setUint32 40 v9 True]
     (new_ArrayBuffer (44 + n)) = Inr ((?p12 @ int_bytes 4 v9 True) @ replicate n 0)"
    by (simp only: run_all.simps w0 w1 w2 w3 w4 w5 w6 w7 w8 w9 w10 w11 w12 sum.case)
  then show ?thesis by (simp only: append_assoc)
qed

lemma length_wav_header [simp]: "length (wav_header b) = 44"
  by (simp add: wav_header_def)

lemma length_wav_frame [simp]: "length (wav_frame b i) = 2 * numberOfChannels b"
  by (simp add: wav_frame_def length_concat comp_def sum_list_triv)

lemma length_wav_body [simp]: "length (wav_body b) = 2 * numberOfChannels b * buf_length b"
  by (simp add: wav_body_def length_concat comp_def sum_list_triv)

lemma channel_length:
  "AudioBuffer_ok b \<Longrightarrow> c < numberOfChannels b \<Longrightarrow> length (channels b ! c) = buf_length b"
  by (simp add: AudioBuffer_ok_def numberOfChannels_def list_all_length)

lemma channel_loop_append:
  assumes "AudioBuffer_ok b" and "i < buf_length b"
    and "c \<le> numberOfChannels b" and "length pre = off"
    and "2 * (numberOfChannels b - c) \<le> length rest"
  shows "channel_loop b i c (pre @ rest, off)
           = Inr ((pre @ concat (map (\<lambda>ch. int_bytes 2 (pcm16 (channels b ! ch ! i)) True)
                                    [c..<numberOfChannels b]))
                    @ drop (2 * (numberOfChannels b - c)) rest,
                  off + 2 * (numberOfChannels b - c))"
  using assms(3-5)
proof (induction "numberOfChannels b - c" arbitrary: c pre rest off)
  case 0
  then show ?case by (subst channel_loop.simps) simp
next
  case (Suc d)
  let ?C = "numberOfChannels b"
  let ?f = "\<lambda>ch. int_bytes 2 (pcm16 (channels b ! ch ! i)) True"
  from Suc.hyps(2) have c: "c < ?C" by simp
  have len: "length (channels b ! c) = buf_length b"
    using assms(1) c by (rule channel_length)
  have two: "2 \<le> length rest" using Suc.hyps(2) Suc.prems(3) by simp
  let ?X = "(pre @ ?f c) @ drop 2 rest"
  have w: "setInt16 off (Some (max (- 1) (min 1 (channels b ! c ! i)) * 32767)) True (pre @ rest)
             = Inr ?X"
    using Suc.prems(2) two by (simp add: setInt16_append pcm16_def)
  have "channel_loop b i c (pre @ rest, off) = channel_loop b i (c + 1) (?X, off + 2)"
    by (subst channel_loop.simps)
      (simp add: c getChannelData_def len assms(2) Let_def w del: append_assoc)
  also have "\<dots> = Inr (((pre @ ?f c) @ concat (map ?f [c + 1..<?C]))
                          @ drop (2 * (?C - (c + 1))) (drop 2 rest),
                        (off + 2) + 2 * (?C - (c + 1)))"
    using Suc.hyps(2) Suc.prems c by (intro Suc.hyps(1)) simp_all
  also have "(pre @ ?f c) @ concat (map ?f [c + 1..<?C]) = pre @ concat (map ?f [c..<?C])"
    using c by (simp add: upt_conv_Cons)
  also have "drop (2 * (?C - (c + 1))) (drop 2 rest) = drop (2 * (?C - c)) rest"
  proof -
    have "2 * (?C - (c + 1)) + 2 = 2 * (?C - c)" using c by simp
    then show ?thesis by (simp only: drop_drop)
  qed
  also have "(off + 2) + 2 * (?C - (c + 1)) = off + 2 * (?C - c)"
    using c by simp
  finally show ?case .
qed

lemma frame_loop_append:
  assumes "AudioBuffer_ok b"
    and "i \<le> buf_length b" and "length pre = off"
    and "2 * numberOfChannels b * (buf_length b - i) \<le> length rest"
  shows "frame_loop b i (pre @ rest, off)
           = Inr ((pre @ concat (map (wav_frame b) [i..<buf_length b]))
                    @ drop (2 * numberOfChannels b * (buf_length b - i)) rest,
                  off + 2 * numberOfChannels b * (buf_length b - i))"
  using assms(2-4)
proof (induction "buf_length b - i" arbitrary: i pre rest off)
  case 0
  then show ?case by (subst frame_loop.simps) simp
next
  case (Suc d)
  let ?C = "numberOfChannels b"
  let ?L = "buf_length b"
  from Suc.hyps(2) have i: "i < ?L" by simp
  have split: "2 * ?C * (?L - i) = 2 * ?C + 2 * ?C * (?L - (i + 1))"
  proof -
    have "?L - i = Suc (?L - (i + 1))" using i by simp
    then show ?thesis by (simp only: mult_Suc_right)
  qed
  have room: "2 * (?C - 0) \<le> length rest" using Suc.prems(3) split by simp
  let ?X = "(pre @ wav_frame b i) @ drop (2 * ?C) rest"
  have ch: "channel_loop b i 0 (pre @ rest, off) = Inr (?X, off + 2 * ?C)"
    using channel_loop_append [OF assms(1) i _ Suc.prems(2) room]
    by (simp add: wav_frame_def)
  have "frame_loop b i (pre @ rest, off) = frame_loop b (i + 1) (?X, off + 2 * ?C)"
    by (subst frame_loop.simps) (simp add: i ch del: append_assoc)
  also have "\<dots> = Inr (((pre @ wav_frame b i) @ concat (map (wav_frame b) [i + 1..<?L]))
                          @ drop (2 * ?C * (?L - (i + 1))) (drop (2 * ?C) rest),
                        (off + 2 * ?C) + 2 * ?C * (?L - (i + 1)))"
  proof (intro Suc.hyps(1))
    show "d = ?L - (i + 1)" using Suc.hyps(2) by simp
    show "i + 1 \<le> ?L" using i by simp
    show "length (pre @ wav_frame b i) = off + 2 * ?C" using Suc.prems(2) by simp
    show "2 * ?C * (?L - (i + 1)) \<le> length (drop (2 * ?C) rest)"
      using Suc.prems(3) split by simp
  qed
  also have "(pre @ wav_frame b i) @ concat (map (wav_frame b) [i + 1..<?L])
               = pre @ concat (map (wav_frame b) [i..<?L])"
    using i by (simp add: upt_conv_Cons)
  also have "drop (2 * ?C * (?L - (i + 1))) (drop (2 * ?C) rest) = drop (2 * ?C * (?L - i)) rest"
    by (simp only: drop_drop split add.commute)
  also have "(off + 2 * ?C) + 2 * ?C * (?L - (i + 1)) = off + 2 * ?C * (?L - i)"
    by (simp only: split add.assoc)
  finally show ?case .
qed

text \<open>
  The imperative encoder produces exactly the layout of the specification: for every
  well-formed buffer no setter throws and the file is the header followed by the body.
\<close>

lemma audioBufferToBlob_layout:
  assumes "AudioBuffer_ok b"
  shows "audioBufferToBlob b = Inr (wav_header b @ wav_body b)"
proof -
  let ?C = "numberOfChannels b"
  let ?L = "buf_length b"
  let ?n = "?L * ?C * 2"
  have hdr: "run_all
             [writeString 0 ''RIFF'',
              setUint32 4 (int (36 + ?L * ?C * 2)) True,
              writeString 8 ''WAVE'',
              writeString 12 ''fmt '',
              setUint32 16 16 True,
              setUint16 20 1 True,
              setUint16 22 (int ?C) True,
              setUint32 24 (int (sampleRate b)) True,
              setUint32 28 (int (sampleRate b * ?C * 2)) True,
              setUint16 32 (int (?C * 2)) True,
              setUint16 34 16 True,
              writeString 36 ''data'',
              setUint32 40 (int (?L * ?C * 2)) True]
             (new_ArrayBuffer (44 + ?n)) = Inr (wav_header b @ replicate ?n 0)"
    unfolding wav_header_def by (rule header_written)
  have body: "frame_loop b 0 (wav_header b @ replicate ?n 0, 44)
                = Inr ((wav_header b @ wav_body b) @ drop (2 * ?C * (?L - 0)) (replicate ?n 0),
                       44 + 2 * ?C * (?L - 0))"
    unfolding wav_body_def
    by (rule frame_loop_append [OF assms]) simp_all
  have "drop (2 * ?C * (?L - 0)) (replicate ?n (0::byte)) = []" by simp
  with body have body': "frame_loop b 0 (wav_header b @ replicate ?n 0, 44)
                = Inr (wav_header b @ wav_body b, 44 + 2 * ?C * (?L - 0))"
    by (simp only: append_Nil2)
  show ?thesis
    unfolding audioBufferToBlob_def Let_def
    by (simp only: hdr body' sum.case prod.case)
qed

subsection \<open>Reading the file back\<close>

lemma bytes_uint_int_bytes2: "bytes_uint (int_bytes 2 v True) True = v mod 2 ^ 16"
proof -
  have "[0..<2] = [0, Suc 0]" by (simp add: upt_rec)
  then have "bytes_uint (int_bytes 2 v True) True = v mod 256 + 256 * (v div 256 mod 256)"
    by (simp add: bytes_uint_def int_bytes_def uint_word_of_int take_bit_eq_mod)
  moreover have "v mod 65536 = 256 * (v div 256 mod 256) + v mod 256"
    using zmod_zmult2_eq [of 256 v 256] by simp
  ultimately show ?thesis by simp
qed

lemma le_bytes4_value:
  fixes v :: int
  shows "v mod 256 + 256 * (v div 256 mod 256 + 256 * (v div 256 div 256 mod 256
           + 256 * (v div 256 div 256 div 256 mod 256))) = v mod 4294967296"
proof -
  have a: "v mod 4294967296 = 256 * (v div 256 mod 16777216) + v mod 256"
    using zmod_zmult2_eq [of 16777216 v 256] by simp
  have b: "v div 256 mod 16777216 = 256 * (v div 256 div 256 mod 65536) + v div 256 mod 256"
    using zmod_zmult2_eq [of 65536 "v div 256" 256] by simp
  have c: "v div 256 div 256 mod 65536
             = 256 * (v div 256 div 256 div 256 mod 256) + v div 256 div 256 mod 256"
    using zmod_zmult2_eq [of 256 "v div 256 div 256" 256] by simp
  show ?thesis
    by (simp only: a b c add.commute)
qed

lemma bytes_uint_int_bytes4: "bytes_uint (int_bytes 4 v True) True = v mod 2 ^ 32"
proof -
  have "[0..<4] = [0, Suc 0, 2, 3]" by (simp add: upt_rec)
  then have "bytes_uint (int_bytes 4 v True) True =
      v mod 256 + 256 * (v div 256 mod 256 + 256 * (v div 256 ^ 2 mod 256 + 256 * (v div 256 ^ 3 mod 256)))"
    by (simp add: bytes_uint_def int_bytes_def uint_word_of_int take_bit_eq_mod)
  also have "v div 256 ^ 3 = v div 256 div 256 div 256"
    by (simp add: zdiv_zmult2_eq)
  also have "v div 256 ^ 2 = v div 256 div 256"
    by (simp add: zdiv_zmult2_eq)
  also note le_bytes4_value
  finally show ?thesis by simp
qed

lemma int16_roundtrip:
  assumes "- 32767 \<le> (t::int)" and "t \<le> 32767"
  shows "(if t mod 2 ^ 16 < 2 ^ 15 then t mod 2 ^ 16 else t mod 2 ^ 16 - 2 ^ 16) = t"
proof (cases "0 \<le> t")
  case True
  then have "t mod 65536 = t" using assms(2) by (simp add: mod_pos_pos_trivial)
  then show ?thesis using assms(2) by simp
next
  case False
  have "(t + 65536) mod 65536 = t + 65536"
    using assms(1) False by (intro mod_pos_pos_trivial) simp_all
  then have "t mod 65536 = t + 65536" by simp
  then show ?thesis using assms(1) by simp
qed

lemma take_drop_field:
  "length pre = off \<Longrightarrow> length f = n \<Longrightarrow> take n (drop off (pre @ f @ post)) = f"
  by simp

lemma getUint32_field:
  "length pre = off \<Longrightarrow>
   getUint32 off True (pre @ int_bytes 4 v True @ post) = Inr (v mod 2 ^ 32)"
  by (simp add: getUint32_def bytes_uint_int_bytes4)

lemma getUint16_field:
  "length pre = off \<Longrightarrow>
   getUint16 off True (pre @ int_bytes 2 v True @ post) = Inr (v mod 2 ^ 16)"
  by (simp add: getUint16_def bytes_uint_int_bytes2)

lemma char_of_ascii: "map (\<lambda>b. char_of (unat b)) (ascii s) = s"
proof -
  have "char_of (unat (of_char c :: byte)) = c" for c
  proof -
    have "(of_char c :: byte) = of_nat (of_char c)" by (simp only: of_nat_of_char)
    then have "unat (of_char c :: byte) = of_char c mod 256"
      by (simp add: unat_of_nat)
    then show ?thesis by simp
  qed
  then show ?thesis by (simp add: ascii_def comp_def map_idI)
qed

lemma getString_field:
  "length pre = off \<Longrightarrow> length s = n \<Longrightarrow>
   getString off n (pre @ ascii s @ post) = Inr s"
  by (simp add: getString_def char_of_ascii)

lemma drop_concat_uniform:
  "\<forall>x\<in>set xss. length x = m \<Longrightarrow> drop (k * m) (concat xss) = concat (drop k xss)"
proof (induction xss arbitrary: k)
  case Nil
  show ?case by simp
next
  case (Cons x xs)
  show ?case
  proof (cases k)
    case 0
    then show ?thesis by simp
  next
    case (Suc k')
    with Cons show ?thesis by simp
  qed
qed

lemma block_of_concat:
  assumes "\<forall>x\<in>set xss. length x = m" and "k < length xss"
  shows "\<exists>post. drop (k * m) (concat xss) = xss ! k @ post"
proof -
  have "drop (k * m) (concat xss) = concat (drop k xss)"
    using assms(1) by (rule drop_concat_uniform)
  also have "drop k xss = xss ! k # drop (Suc k) xss"
    using assms(2) by (simp add: Cons_nth_drop_Suc)
  finally show ?thesis by simp
qed

lemma sample_bytes_at:
  assumes "i < buf_length b" and "c < numberOfChannels b"
  shows "take 2 (drop (2 * (i * numberOfChannels b + c)) (wav_body b))
           = int_bytes 2 (pcm16 (channels b ! c ! i)) True"
proof -
  let ?C = "numberOfChannels b"
  let ?f = "\<lambda>ch. int_bytes 2 (pcm16 (channels b ! ch ! i)) True"
  have "\<exists>post. drop (i * (2 * ?C)) (concat (map (wav_frame b) [0..<buf_length b]))
                  = map (wav_frame b) [0..<buf_length b] ! i @ post"
    using assms(1) by (intro block_of_concat) simp_all
  then obtain post where fr: "drop (i * (2 * ?C)) (wav_body b) = wav_frame b i @ post"
    using assms(1) by (auto simp: wav_body_def)
  have "\<exists>post'. drop (c * 2) (concat (map ?f [0..<?C])) = map ?f [0..<?C] ! c @ post'"
    using assms(2) by (intro block_of_concat) simp_all
  then obtain post' where sm: "drop (c * 2) (wav_frame b i) = ?f c @ post'"
    using assms(2) by (auto simp: wav_frame_def)
  have "2 * (i * ?C + c) = c * 2 + i * (2 * ?C)" by (simp add: algebra_simps)
  then have "drop (2 * (i * ?C + c)) (wav_body b) = drop (c * 2) (drop (i * (2 * ?C)) (wav_body b))"
    by (simp only: drop_drop)
  also have "\<dots> = drop (c * 2) (wav_frame b i) @ post"
    using assms(2) by (simp add: fr)
  also have "\<dots> = ?f c @ post' @ post" by (simp add: sm)
  finally show ?thesis by simp
qed

lemma pcm16_range: "- 32767 \<le> pcm16 x \<and> pcm16 x \<le> 32767"
proof -
  let ?y = "max (- 1) (min 1 x) * 32767"
  have lo: "- 32767 \<le> ?y" and hi: "?y \<le> 32767" by (simp_all add: max_def min_def)
  show ?thesis
  proof (cases "0 \<le> ?y")
    case True
    then have "pcm16 x = \<lfloor>?y\<rfloor>" by (simp add: pcm16_def js_trunc_def)
    moreover have "0 \<le> \<lfloor>?y\<rfloor>" using True by simp
    moreover have "\<lfloor>?y\<rfloor> \<le> 32767" using hi by (simp add: floor_le_iff)
    ultimately show ?thesis by simp
  next
    case False
    then have "pcm16 x = \<lceil>?y\<rceil>" by (simp add: pcm16_def js_trunc_def)
    moreover have "\<lceil>?y\<rceil> \<le> 0" using False by (simp add: ceiling_le_iff)
    moreover have "- 32767 \<le> \<lceil>?y\<rceil>" using lo by (simp add: le_ceiling_iff)
    ultimately show ?thesis by simp
  qed
qed

lemma getInt16_sample:
  assumes "i < buf_length b" and "c < numberOfChannels b"
  shows "getInt16 (44 + 2 * (i * numberOfChannels b + c)) True (wav_header b @ wav_body b)
           = Inr (pcm16 (channels b ! c ! i))"
proof -
  let ?C = "numberOfChannels b"
  let ?t = "pcm16 (channels b ! c ! i)"
  have "i * ?C + c < buf_length b * ?C"
  proof -
    have "i * ?C + c < i * ?C + ?C" using assms(2) by simp
    also have "\<dots> = Suc i * ?C" by simp
    also have "\<dots> \<le> buf_length b * ?C" using assms(1) by (intro mult_le_mono1) simp
    finally show ?thesis .
  qed
  then have fits: "44 + 2 * (i * ?C + c) + 2 \<le> length (wav_header b @ wav_body b)"
    by (simp add: algebra_simps)
  have at: "take 2 (drop (44 + 2 * (i * ?C + c)) (wav_header b @ wav_body b)) = int_bytes 2 ?t True"
    using sample_bytes_at [OF assms] by simp
  have u: "bytes_uint (int_bytes 2 ?t True) True = ?t mod 2 ^ 16"
    by (rule bytes_uint_int_bytes2)
  have rt: "(if ?t mod 2 ^ 16 < 2 ^ 15 then ?t mod 2 ^ 16 else ?t mod 2 ^ 16 - 2 ^ 16) = ?t"
    using pcm16_range [of "channels b ! c ! i"] by (intro int16_roundtrip) simp_all
  have "getInt16 (44 + 2 * (i * ?C + c)) True (wav_header b @ wav_body b)
          = (let u = bytes_uint (take 2 (drop (44 + 2 * (i * ?C + c)) (wav_header b @ wav_body b))) True
             in Inr (if u < 2 ^ 15 then u else u - 2 ^ 16))"
    using fits by (simp only: getInt16_def if_True)
  also have "\<dots> = Inr (if ?t mod 2 ^ 16 < 2 ^ 15 then ?t mod 2 ^ 16 else ?t mod 2 ^ 16 - 2 ^ 16)"
    by (simp only: at u Let_def)
  also have "\<dots> = Inr ?t" by (simp only: rt)
  finally show ?thesis .
qed

text \<open>The thirteen header fields, each read back at its offset.\<close>

lemma header_field_0:
  "getString 0 4 (wav_header b @ wav_body b) = Inr ''RIFF''"
proof -
  have split: "wav_header b @ wav_body b
          = ([]) @
            ascii ''RIFF'' @
              (int_bytes 4 (int (36 + buf_length b * numberOfChannels b * 2)) True @
               ascii ''WAVE'' @
               ascii ''fmt '' @
               int_bytes 4 16 True @
               int_bytes 2 1 True @
               int_bytes 2 (int (numberOfChannels b)) True @
               int_bytes 4 (int (sampleRate b)) True @
               int_bytes 4 (int (sampleRate b * numberOfChannels b * 2)) True @
               int_bytes 2 (int (numberOfChannels b * 2)) True @
               int_bytes 2 16 True @
               ascii ''data'' @
               int_bytes 4 (int (buf_length b * numberOfChannels b * 2)) True @
               wav_body b)"
    by (simp add: wav_header_def)
  have len: "length ([]) = 0"
    by simp
  show ?thesis
    unfolding split by (rule getString_field [OF len]) simp
qed

lemma header_field_4:
  "getUint32 4 True (wav_header b @ wav_body b)
     = Inr (int (36 + buf_length b * numberOfChannels b * 2) mod 2 ^ 32)"
proof -
  have split: "wav_header b @ wav_body b
          = (ascii ''RIFF'') @
            int_bytes 4 (int (36 + buf_length b * numberOfChannels b * 2)) True @
              (ascii ''WAVE'' @
               ascii ''fmt '' @
               int_bytes 4 16 True @
               int_bytes 2 1 True @
               int_bytes 2 (int (numberOfChannels b)) True @
               int_bytes 4 (int (sampleRate b)) True @
               int_bytes 4 (int (sampleRate b * numberOfChannels b * 2)) True @
               int_bytes 2 (int (numberOfChannels b * 2)) True @
               int_bytes 2 16 True @
               ascii ''data'' @
               int_bytes 4 (int (buf_length b * numberOfChannels b * 2)) True @
               wav_body b)"
    by (simp add: wav_header_def)
  have len: "length (ascii ''RIFF'') = 4"
    by simp
  show ?thesis
    unfolding split by (rule getUint32_field [OF len])
qed

lemma header_field_8:
  "getString 8 4 (wav_header b @ wav_body b) = Inr ''WAVE''"
proof -
  have split: "wav_header b @ wav_body b
          = (ascii ''RIFF'' @
               int_bytes 4 (int (36 + buf_length b * numberOfChannels b * 2)) True) @
            ascii ''WAVE'' @
              (ascii ''fmt '' @
               int_bytes 4 16 True @
               int_bytes 2 1 True @
               int_bytes 2 (int (numberOfChannels b)) True @
               int_bytes 4 (int (sampleRate b)) True @
               int_bytes 4 (int (sampleRate b * numberOfChannels b * 2)) True @
               int_bytes 2 (int (numberOfChannels b * 2)) True @
               int_bytes 2 16 True @
               ascii ''data'' @
               int_bytes 4 (int (buf_length b * numberOfChannels b * 2)) True @
               wav_body b)"
    by (simp add: wav_header_def)
  have len: "length (ascii ''RIFF'' @
               int_bytes 4 (int (36 + buf_length b * numberOfChannels b * 2)) True) = 8"
    by simp
  show ?thesis
    unfolding split by (rule getString_field [OF len]) simp
qed

lemma header_field_12:
  "getString 12 4 (wav_header b @ wav_body b) = Inr ''fmt ''"
proof -
  have split: "wav_header b @ wav_body b
          = (ascii ''RIFF'' @
               int_bytes 4 (int (36 + buf_length b * numberOfChannels b * 2)) True @
               ascii ''WAVE'') @
            ascii ''fmt '' @
              (int_bytes 4 16 True @
               int_bytes 2 1 True @
               int_bytes 2 (int (numberOfChannels b)) True @
               int_bytes 4 (int (sampleRate b)) True @
               int_bytes 4 (int (sampleRate b * numberOfChannels b * 2)) True @
               int_bytes 2 (int (numberOfChannels b * 2)) True @
               int_bytes 2 16 True @
               ascii ''data'' @
               int_bytes 4 (int (buf_length b * numberOfChannels b * 2)) True @
               wav_body b)"
    by (simp add: wav_header_def)
  have len: "length (ascii ''RIFF'' @
               int_bytes 4 (int (36 + buf_length b * numberOfChannels b * 2)) True @
               ascii ''WAVE'') = 12"
    by simp
  show ?thesis
    unfolding split by (rule getString_field [OF len]) simp
qed

lemma header_field_16:
  "getUint32 16 True (wav_header b @ wav_body b)
     = Inr (16 mod 2 ^ 32)"
proof -
  have split: "wav_header b @ wav_body b
          = (ascii ''RIFF'' @
               int_bytes 4 (int (36 + buf_length b * numberOfChannels b * 2)) True @
               ascii ''WAVE'' @
               ascii ''fmt '') @
            int_bytes 4 16 True @
              (int_bytes 2 1 True @
               int_bytes 2 (int (numberOfChannels b)) True @
               int_bytes 4 (int (sampleRate b)) True @
               int_bytes 4 (int (sampleRate b * numberOfChannels b * 2)) True @
               int_bytes 2 (int (numberOfChannels b * 2)) True @
               int_bytes 2 16 True @
               ascii ''data'' @
               int_bytes 4 (int (buf_length b * numberOfChannels b * 2)) True @
               wav_body b)"
    by (simp add: wav_header_def)
  have len: "length (ascii ''RIFF'' @
               int_bytes 4 (int (36 + buf_length b * numberOfChannels b * 2)) True @
               ascii ''WAVE'' @
               ascii ''fmt '') = 16"
    by simp
  show ?thesis
    unfolding split by (rule getUint32_field [OF len])
qed

lemma header_field_20:
  "getUint16 20 True (wav_header b @ wav_body b)
     = Inr (1 mod 2 ^ 16)"
proof -
  have split: "wav_header b @ wav_body b
          = (ascii ''RIFF'' @
               int_bytes 4 (int (36 + buf_length b * numberOfChannels b * 2)) True @
               ascii ''WAVE'' @
               ascii ''fmt '' @
               int_bytes 4 16 True) @
            int_bytes 2 1 True @
              (int_bytes 2 (int (numberOfChannels b)) True @
               int_bytes 4 (int (sampleRate b)) True @
               int_bytes 4 (int (sampleRate b * numberOfChannels b * 2)) True @
               int_bytes 2 (int (numberOfChannels b * 2)) True @
               int_bytes 2 16 True @
               ascii ''data'' @
               int_bytes 4 (int (buf_length b * numberOfChannels b * 2)) True @
               wav_body b)"
    by (simp add: wav_header_def)
  have len: "length (ascii ''RIFF'' @
               int_bytes 4 (int (36 + buf_length b * numberOfChannels b * 2)) True @
               ascii ''WAVE'' @
               ascii ''fmt '' @
               int_bytes 4 16 True) = 20"
    by simp
  show ?thesis
    unfolding split by (rule getUint16_field [OF len])
qed

lemma header_field_22:
  "getUint16 22 True (wav_header b @ wav_body b)
     = Inr (int (numberOfChannels b) mod 2 ^ 16)"
proof -
  have split: "wav_header b @ wav_body b
          = (ascii ''RIFF'' @
               int_bytes 4 (int (36 + buf_length b * numberOfChannels b * 2)) True @
               ascii ''WAVE'' @
               ascii ''fmt '' @
               int_bytes 4 16 True @
               int_bytes 2 1 True) @
            int_bytes 2 (int (numberOfChannels b)) True @
              (int_bytes 4 (int (sampleRate b)) True @
               int_bytes 4 (int (sampleRate b * numberOfChannels b * 2)) True @
               int_bytes 2 (int (numberOfChannels b * 2)) True @
               int_bytes 2 16 True @
               ascii ''data'' @
               int_bytes 4 (int (buf_length b * numberOfChannels b * 2)) True @
               wav_body b)"
    by (simp add: wav_header_def)
  have len: "length (ascii ''RIFF'' @
               int_bytes 4 (int (36 + buf_length b * numberOfChannels b * 2)) True @
               ascii ''WAVE'' @
               ascii ''fmt '' @
               int_bytes 4 16 True @
               int_bytes 2 1 True) = 22"
    by simp
  show ?thesis
    unfolding split by (rule getUint16_field [OF len])
qed

lemma header_field_24:
  "getUint32 24 True (wav_header b @ wav_body b)
     = Inr (int (sampleRate b) mod 2 ^ 32)"
proof -
  have split: "wav_header b @ wav_body b
          = (ascii ''RIFF'' @
               int_bytes 4 (int (36 + buf_length b * numberOfChannels b * 2)) True @
               ascii ''WAVE'' @
               ascii ''fmt '' @
               int_bytes 4 16 True @
               int_bytes 2 1 True @
               int_bytes 2 (int (numberOfChannels b)) True) @
            int_bytes 4 (int (sampleRate b)) True @
              (int_bytes 4 (int (sampleRate b * numberOfChannels b * 2)) True @
               int_bytes 2 (int (numberOfChannels b * 2)) True @
               int_bytes 2 16 True @
               ascii ''data'' @
               int_bytes 4 (int (buf_length b * numberOfChannels b * 2)) True @
               wav_body b)"
    by (simp add: wav_header_def)
  have len: "length (ascii ''RIFF'' @
               int_bytes 4 (int (36 + buf_length b * numberOfChannels b * 2)) True @
               ascii ''WAVE'' @
               ascii ''fmt '' @
               int_bytes 4 16 True @
               int_bytes 2 1 True @
               int_bytes 2 (int (numberOfChannels b)) True) = 24"
    by simp
  show ?thesis
    unfolding split by (rule getUint32_field [OF len])
qed

lemma header_field_28:
  "getUint32 28 True (wav_header b @ wav_body b)
     = Inr (int (sampleRate b * numberOfChannels b * 2) mod 2 ^ 32)"
proof -
  have split: "wav_header b @ wav_body b
          = (ascii ''RIFF'' @
               int_bytes 4 (int (36 + buf_length b * numberOfChannels b * 2)) True @
               ascii ''WAVE'' @
               ascii ''fmt '' @
               int_bytes 4 16 True @
               int_bytes 2 1 True @
               int_bytes 2 (int (numberOfChannels b)) True @
               int_bytes 4 (int (sampleRate b)) True) @
            int_bytes 4 (int (sampleRate b * numberOfChannels b * 2)) True @
              (int_bytes 2 (int (numberOfChannels b * 2)) True @
               int_bytes 2 16 True @
               ascii ''data'' @
               int_bytes 4 (int (buf_length b * numberOfChannels b * 2)) True @
               wav_body b)"
    by (simp add: wav_header_def)
  have len: "length (ascii ''RIFF'' @
               int_bytes 4 (int (36 + buf_length b * numberOfChannels b * 2)) True @
               ascii ''WAVE'' @
               ascii ''fmt '' @
               int_bytes 4 16 True @
               int_bytes 2 1 True @
               int_bytes 2 (int (numberOfChannels b)) True @
               int_bytes 4 (int (sampleRate b)) True) = 28"
    by simp
  show ?thesis
    unfolding split by (rule getUint32_field [OF len])
qed

lemma header_field_32:
  "getUint16 32 True (wav_header b @ wav_body b)
     = Inr (int (numberOfChannels b * 2) mod 2 ^ 16)"
proof -
  have split: "wav_header b @ wav_body b
          = (ascii ''RIFF'' @
               int_bytes 4 (int (36 + buf_length b * numberOfChannels b * 2)) True @
               ascii ''WAVE'' @
               ascii ''fmt '' @
               int_bytes 4 16 True @
               int_bytes 2 1 True @
               int_bytes 2 (int (numberOfChannels b)) True @
               int_bytes 4 (int (sampleRate b)) True @
               int_bytes 4 (int (sampleRate b * numberOfChannels b * 2)) True) @
            int_bytes 2 (int (numberOfChannels b * 2)) True @
              (int_bytes 2 16 True @
               ascii ''data'' @
               int_bytes 4 (int (buf_length b * numberOfChannels b * 2)) True @
               wav_body b)"
    by (simp add: wav_header_def)
  have len: "length (ascii ''RIFF'' @
               int_bytes 4 (int (36 + buf_length b * numberOfChannels b * 2)) True @
               ascii ''WAVE'' @
               ascii ''fmt '' @
               int_bytes 4 16 True @
               int_bytes 2 1 True @
               int_bytes 2 (int (numberOfChannels b)) True @
               int_bytes 4 (int (sampleRate b)) True @
               int_bytes 4 (int (sampleRate b * numberOfChannels b * 2)) True) = 32"
    by simp
  show ?thesis
    unfolding split by (rule getUint16_field [OF len])
qed

lemma header_field_34:
  "getUint16 34 True (wav_header b @ wav_body b)
     = Inr (16 mod 2 ^ 16)"
proof -
  have split: "wav_header b @ wav_body b
          = (ascii ''RIFF'' @
               int_bytes 4 (int (36 + buf_length b * numberOfChannels b * 2)) True @
               ascii ''WAVE'' @
               ascii ''fmt '' @
               int_bytes 4 16 True @
               int_bytes 2 1 True @
               int_bytes 2 (int (numberOfChannels b)) True @
               int_bytes 4 (int (sampleRate b)) True @
               int_bytes 4 (int (sampleRate b * numberOfChannels b * 2)) True @
               int_bytes 2 (int (numberOfChannels b * 2)) True) @
            int_bytes 2 16 True @
              (ascii ''data'' @
               int_bytes 4 (int (buf_length b * numberOfChannels b * 2)) True @
               wav_body b)"
    by (simp add: wav_header_def)
  have len: "length (ascii ''RIFF'' @
               int_bytes 4 (int (36 + buf_length b * numberOfChannels b * 2)) True @
               ascii ''WAVE'' @
               ascii ''fmt '' @
               int_bytes 4 16 True @
               int_bytes 2 1 True @
               int_bytes 2 (int (numberOfChannels b)) True @
               int_bytes 4 (int (sampleRate b)) True @
               int_bytes 4 (int (sampleRate b * numberOfChannels b * 2)) True @
               int_bytes 2 (int (numberOfChannels b * 2)) True) = 34"
    by simp
  show ?thesis
    unfolding split by (rule getUint16_field [OF len])
qed

lemma header_field_36:
  "getString 36 4 (wav_header b @ wav_body b) = Inr ''data''"
proof -
  have split: "wav_header b @ wav_body b
          = (ascii ''RIFF'' @
               int_bytes 4 (int (36 + buf_length b * numberOfChannels b * 2)) True @
               ascii ''WAVE'' @
               ascii ''fmt '' @
               int_bytes 4 16 True @
               int_bytes 2 1 True @
               int_bytes 2 (int (numberOfChannels b)) True @
               int_bytes 4 (int (sampleRate b)) True @
               int_bytes 4 (int (sampleRate b * numberOfChannels b * 2)) True @
               int_bytes 2 (int (numberOfChannels b * 2)) True @
               int_bytes 2 16 True) @
            ascii ''data'' @
              (int_bytes 4 (int (buf_length b * numberOfChannels b * 2)) True @
               wav_body b)"
    by (simp add: wav_header_def)
  have len: "length (ascii ''RIFF'' @
               int_bytes 4 (int (36 + buf_length b * numberOfChannels b * 2)) True @
               ascii ''WAVE'' @
               ascii ''fmt '' @
               int_bytes 4 16 True @
               int_bytes 2 1 True @
               int_bytes 2 (int (numberOfChannels b)) True @
               int_bytes 4 (int (sampleRate b)) True @
               int_bytes 4 (int (sampleRate b * numberOfChannels b * 2)) True @
               int_bytes 2 (int (numberOfChannels b * 2)) True @
               int_bytes 2 16 True) = 36"
    by simp
  show ?thesis
    unfolding split by (rule getString_field [OF len]) simp
qed

lemma header_field_40:
  "getUint32 40 True (wav_header b @ wav_body b)
     = Inr (int (buf_length b * numberOfChannels b * 2) mod 2 ^ 32)"
proof -
  have split: "wav_header b @ wav_body b
          = (ascii ''RIFF'' @
               int_bytes 4 (int (36 + buf_length b * numberOfChannels b * 2)) True @
               ascii ''WAVE'' @
               ascii ''fmt '' @
               int_bytes 4 16 True @
               int_bytes 2 1 True @
               int_bytes 2 (int (numberOfChannels b)) True @
               int_bytes 4 (int (sampleRate b)) True @
               int_bytes 4 (int (sampleRate b * numberOfChannels b * 2)) True @
               int_bytes 2 (int (numberOfChannels b * 2)) True @
               int_bytes 2 16 True @
               ascii ''data'') @
            int_bytes 4 (int (buf_length b * numberOfChannels b * 2)) True @
              (wav_body b)"
    by (simp add: wav_header_def)
  have len: "length (ascii ''RIFF'' @
               int_bytes 4 (int (36 + buf_length b * numberOfChannels b * 2)) True @
               ascii ''WAVE'' @
               ascii ''fmt '' @
               int_bytes 4 16 True @
               int_bytes 2 1 True @
               int_bytes 2 (int (numberOfChannels b)) True @
               int_bytes 4 (int (sampleRate b)) True @
               int_bytes 4 (int (sampleRate b * numberOfChannels b * 2)) True @
               int_bytes 2 (int (numberOfChannels b * 2)) True @
               int_bytes 2 16 True @
               ascii ''data'') = 40"
    by simp
  show ?thesis
    unfolding split by (rule getUint32_field [OF len])
qed

lemma length_wav_file: "length (wav_header b @ wav_body b) = 44 + buf_length b * numberOfChannels b * 2"
  by (simp add: algebra_simps)

subsection \<open>The encoded file\<close>

text \<open>
  Claim C1, amended by the condition that the header quantities fit their fields. For
  every well-formed buffer with at least one channel for which \<open>36 + frameCount *
  channelCount * 2\<close> and \<open>sampleRate * channelCount * 2\<close> are below \<open>2^32\<close> and
  \<open>channelCount * 2\<close> is below \<open>2^16\<close>, \<open>audioBufferToBlob\<close> returns a file of
  \<open>44 + frameCount * channelCount * 2\<close> bytes in which a reader finds: \<open>RIFF\<close>, the
  little-endian 32-bit total size minus 8, \<open>WAVE\<close>, \<open>fmt \<close> with sub-chunk size 16,
  format code 1, the channel count, the sample rate, the byte rate, the block align,
  16 bits per sample, \<open>data\<close> and the data length; and at offset
  \<open>44 + 2 * (i * channelCount + c)\<close> the little-endian signed 16-bit value of sample \<open>i\<close>
  of channel \<open>c\<close>, clamped to \<open>[-1, 1]\<close>, multiplied by 32767 and truncated towards zero.
\<close>

theorem audioBufferToBlob_wav_file:
  assumes "AudioBuffer_ok b" and "1 \<le> numberOfChannels b"
    and "36 + buf_length b * numberOfChannels b * 2 < 2 ^ 32"
    and "sampleRate b * numberOfChannels b * 2 < 2 ^ 32"
    and "numberOfChannels b * 2 < 2 ^ 16"
  shows "\<exists>bytes. audioBufferToBlob b = Inr bytes \<and>
           length bytes = 44 + buf_length b * numberOfChannels b * 2 \<and>
           getString 0 4 bytes = Inr ''RIFF'' \<and>
           getUint32 4 True bytes = Inr (int (length bytes) - 8) \<and>
           getString 8 4 bytes = Inr ''WAVE'' \<and>
           getString 12 4 bytes = Inr ''fmt '' \<and>
           getUint32 16 True bytes = Inr 16 \<and>
           getUint16 20 True bytes = Inr 1 \<and>
           getUint16 22 True bytes = Inr (int (numberOfChannels b)) \<and>
           getUint32 24 True bytes = Inr (int (sampleRate b)) \<and>
           getUint32 28 True bytes = Inr (int (sampleRate b * numberOfChannels b * 2)) \<and>
           getUint16 32 True bytes = Inr (int (numberOfChannels b * 2)) \<and>
           getUint16 34 True bytes = Inr 16 \<and>
           getString 36 4 bytes = Inr ''data'' \<and>
           getUint32 40 True bytes = Inr (int (buf_length b * numberOfChannels b * 2)) \<and>
           (\<forall>i<buf_length b. \<forall>c<numberOfChannels b.
              getInt16 (44 + 2 * (i * numberOfChannels b + c)) True bytes
                = Inr (js_trunc (max (- 1) (min 1 (channels b ! c ! i)) * 32767)))"
proof -
  let ?B = "wav_header b @ wav_body b"
  let ?C = "numberOfChannels b"
  have small32: "int n mod 2 ^ 32 = int n" if "n < 2 ^ 32" for n :: nat
  proof -
    have "int n < 2 ^ 32" using that by (simp only: flip: of_nat_less_iff [where 'a = int]) simp
    then show ?thesis by (intro mod_pos_pos_trivial) simp_all
  qed
  have small16: "int n mod 2 ^ 16 = int n" if "n < 2 ^ 16" for n :: nat
  proof -
    have "int n < 2 ^ 16" using that by (simp only: flip: of_nat_less_iff [where 'a = int]) simp
    then show ?thesis by (intro mod_pos_pos_trivial) simp_all
  qed
  have rate: "sampleRate b < 2 ^ 32"
  proof -
    have "1 \<le> ?C * 2" using assms(2) by simp
    then have "sampleRate b * 1 \<le> sampleRate b * (?C * 2)" by (rule mult_le_mono2)
    then have "sampleRate b \<le> sampleRate b * ?C * 2" by (simp only: mult.assoc mult_1_right)
    also note assms(4)
    finally show ?thesis .
  qed
  have nch: "?C < 2 ^ 16" using assms(5) by simp
  have data: "buf_length b * ?C * 2 < 2 ^ 32" using assms(3) by simp
  have f0: "audioBufferToBlob b = Inr ?B" using assms(1) by (rule audioBufferToBlob_layout)
  have f1: "length ?B = 44 + buf_length b * ?C * 2" by (rule length_wav_file)
  have f4: "getUint32 4 True ?B = Inr (int (length ?B) - 8)"
    using small32 [OF assms(3)] by (simp only: header_field_4 f1) simp
  have f16: "getUint32 16 True ?B = Inr 16" by (simp add: header_field_16)
  have f20: "getUint16 20 True ?B = Inr 1" by (simp add: header_field_20)
  have f22: "getUint16 22 True ?B = Inr (int ?C)"
    by (simp only: header_field_22 small16 [OF nch])
  have f24: "getUint32 24 True ?B = Inr (int (sampleRate b))"
    by (simp only: header_field_24 small32 [OF rate])
  have f28: "getUint32 28 True ?B = Inr (int (sampleRate b * ?C * 2))"
    by (simp only: header_field_28 small32 [OF assms(4)])
  have f32: "getUint16 32 True ?B = Inr (int (?C * 2))"
    by (simp only: header_field_32 small16 [OF assms(5)])
  have f34: "getUint16 34 True ?B = Inr 16" by (simp add: header_field_34)
  have f40: "getUint32 40 True ?B = Inr (int (buf_length b * ?C * 2))"
    by (simp only: header_field_40 small32 [OF data])
  have body: "\<forall>i<buf_length b. \<forall>c<?C.
              getInt16 (44 + 2 * (i * ?C + c)) True ?B
                = Inr (js_trunc (max (- 1) (min 1 (channels b ! c ! i)) * 32767))"
    using getInt16_sample [of _ b] by (simp only: pcm16_def) blast
  from f0 f1 header_field_0 f4 header_field_8 header_field_12 f16 f20 f22 f24 f28 f32 f34
    header_field_36 f40 body
  show ?thesis by blast
qed

text \<open>
  Claim C1 as stated covers every buffer. A stereo buffer of \<open>2^30\<close> frames has
  \<open>2^32\<close> bytes of samples; \<open>setUint32\<close> stores that number modulo \<open>2^32\<close>, so the
  data-length field of the file reads 0.
\<close>

theorem audioBufferToBlob_4GiB_counterexample:
  "blob_uint32 40 \<lparr>sampleRate = 48000, buf_length = 1073741824,
                    channels = [replicate 1073741824 0, replicate 1073741824 0]\<rparr> = Inr 0 \<and>
   blob_uint32 40 \<lparr>sampleRate = 48000, buf_length = 1073741824,
                    channels = [replicate 1073741824 0, replicate 1073741824 0]\<rparr>
     \<noteq> Inr (1073741824 * 2 * 2)"
proof -
  let ?b = "\<lparr>sampleRate = 48000, buf_length = 1073741824,
             channels = [replicate 1073741824 0, replicate 1073741824 0]\<rparr>"
  have ok: "AudioBuffer_ok ?b" by (simp add: AudioBuffer_ok_def)
  have "blob_uint32 40 ?b = getUint32 40 True (wav_header ?b @ wav_body ?b)"
    by (simp only: blob_uint32_def audioBufferToBlob_layout [OF ok] sum.case)
  also have "\<dots> = Inr (int (buf_length ?b * numberOfChannels ?b * 2) mod 2 ^ 32)"
    by (rule header_field_40)
  also have "\<dots> = Inr 0" by (simp add: numberOfChannels_def)
  finally show ?thesis by simp
qed

text \<open>
  Two stereo frames at 8000 Hz; the samples 0.5, 2, -1 and -1/3 are stored as 16383,
  32767, -32767 and -10922.
\<close>

theorem audioBufferToBlob_wav_file_witness:
  "\<exists>bytes. audioBufferToBlob \<lparr>sampleRate = 8000, buf_length = 2, channels = [[1 / 2, - 1], [2, - 1 / 3]]\<rparr>
              = Inr bytes \<and>
           length bytes = 52 \<and>
           getString 0 4 bytes = Inr ''RIFF'' \<and>
           getUint32 4 True bytes = Inr 44 \<and>
           getUint16 22 True bytes = Inr 2 \<and>
           getUint32 24 True bytes = Inr 8000 \<and>
           getUint32 28 True bytes = Inr 32000 \<and>
           getUint16 32 True bytes = Inr 4 \<and>
           getUint32 40 True bytes = Inr 8 \<and>
           getInt16 44 True bytes = Inr 16383 \<and>
           getInt16 46 True bytes = Inr 32767 \<and>
           getInt16 48 True bytes = Inr (- 32767) \<and>
           getInt16 50 True bytes = Inr (- 10922)"
proof -
  let ?b = "\<lparr>sampleRate = 8000, buf_length = 2, channels = [[1 / 2, - 1], [2, - 1 / 3]]\<rparr>"
  have ok: "AudioBuffer_ok ?b" by (simp add: AudioBuffer_ok_def)
  have c: "numberOfChannels ?b = 2" by (simp add: numberOfChannels_def)
  from audioBufferToBlob_wav_file [of ?b] ok c
  obtain bytes where b: "audioBufferToBlob ?b = Inr bytes" "length bytes = 52"
      "getString 0 4 bytes = Inr ''RIFF''" "getUint32 4 True bytes = Inr 44"
      "getUint16 22 True bytes = Inr 2" "getUint32 24 True bytes = Inr 8000"
      "getUint32 28 True bytes = Inr 32000" "getUint16 32 True bytes = Inr 4"
      "getUint32 40 True bytes = Inr 8"
    and s: "\<And>i c. i < 2 \<Longrightarrow> c < 2 \<Longrightarrow>
              getInt16 (44 + 2 * (i * 2 + c)) True bytes
                = Inr (js_trunc (max (- 1) (min 1 ([[1 / 2, - 1], [2, - 1 / 3]] ! c ! i)) * 32767))"
    by auto
  have "getInt16 44 True bytes = Inr 16383" using s [of 0 0] by (simp add: js_trunc_def)
  moreover have "getInt16 46 True bytes = Inr 32767" using s [of 0 1] by (simp add: js_trunc_def)
  moreover have "getInt16 48 True bytes = Inr (- 32767)" using s [of 1 0] by (simp add: js_trunc_def)
  moreover have "getInt16 50 True bytes = Inr (- 10922)" using s [of 1 1] by (simp add: js_trunc_def)
  ultimately show ?thesis using b by blast
qed

section \<open>The effects render: properties\<close>

lemma startRendering_ok: "AudioBuffer_ok (startRendering ctx d)"
  by (simp add: AudioBuffer_ok_def startRendering_def list_all_iff)

lemma startRendering_dims:
  "buf_length (startRendering ctx d) = ctx_length ctx"
  "numberOfChannels (startRendering ctx d) = ctx_numberOfChannels ctx"
  "sampleRate (startRendering ctx d) = ctx_sampleRate ctx"
  by (simp_all add: startRendering_def numberOfChannels_def)

lemma startRendering_sample:
  "c < ctx_numberOfChannels ctx \<Longrightarrow> n < ctx_length ctx \<Longrightarrow>
   channels (startRendering ctx d) ! c ! n = d c n"
  by (simp add: startRendering_def)

lemma applyVoiceTransformation_rendered:
  assumes "applyVoiceTransformation P ac sel st buffer = Inr out"
  shows "\<exists>d. out = startRendering
                 \<lparr>ctx_numberOfChannels = numberOfChannels buffer,
                  ctx_length = buf_length buffer,
                  ctx_sampleRate = sampleRate buffer\<rparr> d"
  using assms
  by (auto simp: applyVoiceTransformation_def Let_def split: if_splits option.splits)

subsection \<open>Length of the rendered buffer\<close>

text \<open>
  Claim C2, amended. For every platform, every preset of the table, every settings record
  and every source buffer, the render returns a buffer with the frame count, channel
  count and sample rate of the source, whatever the pitch multiplier is: the offline
  context is constructed with the source's length. The source node is played at
  \<open>playbackRate = basePitch * pitchMultiplier\<close>: the render asks the platform for the
  source signal at that rate only, and with no effect stage active the rendered samples
  are that signal.
\<close>

theorem applyVoiceTransformation_length:
  assumes "find (\<lambda>type. vt_value type = sel) voiceTypes = Some ty"
  shows "\<exists>out. applyVoiceTransformation P True sel st buffer = Inr out \<and>
           buf_length out = buf_length buffer \<and>
           numberOfChannels out = numberOfChannels buffer \<and>
           sampleRate out = sampleRate buffer \<and>
           AudioBuffer_ok out \<and>
           applyVoiceTransformation
             (P\<lparr>source_node := \<lambda>b rate. source_node P buffer (vt_pitch ty * pitch st)\<rparr>)
             True sel st buffer = Inr out \<and>
           (sel \<noteq> ''robot'' \<and> reverb st \<le> 0 \<and> echo st \<le> 0 \<and> distortion st \<le> 0 \<longrightarrow>
              (\<forall>c<numberOfChannels buffer. \<forall>n<buf_length buffer.
                 channels out ! c ! n = source_node P buffer (vt_pitch ty * pitch st) c n))"
proof -
  obtain out where out: "applyVoiceTransformation P True sel st buffer = Inr out"
    using assms by (auto simp: applyVoiceTransformation_def Let_def)
  from applyVoiceTransformation_rendered [OF out] obtain d where
    d: "out = startRendering \<lparr>ctx_numberOfChannels = numberOfChannels buffer,
                  ctx_length = buf_length buffer, ctx_sampleRate = sampleRate buffer\<rparr> d"
    by blast
  have dims: "buf_length out = buf_length buffer" "numberOfChannels out = numberOfChannels buffer"
    "sampleRate out = sampleRate buffer" "AudioBuffer_ok out"
    unfolding d by (simp_all add: startRendering_dims startRendering_ok)
  have same: "applyVoiceTransformation
             (P\<lparr>source_node := \<lambda>b rate. source_node P buffer (vt_pitch ty * pitch st)\<rparr>)
             True sel st buffer = Inr out"
  proof -
    have "applyVoiceTransformation
             (P\<lparr>source_node := \<lambda>b rate. source_node P buffer (vt_pitch ty * pitch st)\<rparr>)
             True sel st buffer = applyVoiceTransformation P True sel st buffer"
      unfolding applyVoiceTransformation_def by (simp add: assms Let_def cong: if_cong)
    with out show ?thesis by simp
  qed
  have plain: "sel \<noteq> ''robot'' \<and> reverb st \<le> 0 \<and> echo st \<le> 0 \<and> distortion st \<le> 0 \<longrightarrow>
              (\<forall>c<numberOfChannels buffer. \<forall>n<buf_length buffer.
                 channels out ! c ! n = source_node P buffer (vt_pitch ty * pitch st) c n)"
  proof (intro impI allI)
    fix c n
    assume a: "sel \<noteq> ''robot'' \<and> reverb st \<le> 0 \<and> echo st \<le> 0 \<and> distortion st \<le> 0"
      and c: "c < numberOfChannels buffer" and n: "n < buf_length buffer"
    from a assms out have "out = startRendering \<lparr>ctx_numberOfChannels = numberOfChannels buffer,
                  ctx_length = buf_length buffer, ctx_sampleRate = sampleRate buffer\<rparr>
                  (source_node P buffer (vt_pitch ty * pitch st))"
      by (simp add: applyVoiceTransformation_def Let_def)
    then show "channels out ! c ! n = source_node P buffer (vt_pitch ty * pitch st) c n"
      using c n by (simp add: startRendering_sample)
  qed
  from out dims same plain show ?thesis by blast
qed

text \<open>
  Claim C2 as stated gives the output \<open>inputFrameCount / pitchMultiplier\<close> frames. With
  four input frames and a pitch multiplier of 2 the rendered buffer has four frames,
  not two.
\<close>

theorem applyVoiceTransformation_length_counterexample:
  "rendered_length ref_platform ''elderly''
      \<lparr>pitch = 2, speed = 1, reverb = 0, echo = 0, distortion = 0\<rparr>
      \<lparr>sampleRate = 44100, buf_length = 4, channels = [[0, 1 / 2, 0, - 1 / 2]]\<rparr> = Inr 4 \<and>
   rendered_length ref_platform ''elderly''
      \<lparr>pitch = 2, speed = 1, reverb = 0, echo = 0, distortion = 0\<rparr>
      \<lparr>sampleRate = 44100, buf_length = 4, channels = [[0, 1 / 2, 0, - 1 / 2]]\<rparr> \<noteq> Inr (4 div 2)"
  by (simp add: rendered_length_def applyVoiceTransformation_def voiceTypes_def Let_def
      startRendering_def)

text \<open>The same input, through the theorem: preset \<open>elderly\<close>, rate \<open>0.9 * 2\<close>.\<close>

theorem applyVoiceTransformation_length_witness:
  "\<exists>out. applyVoiceTransformation ref_platform True ''elderly''
            \<lparr>pitch = 2, speed = 1, reverb = 0, echo = 0, distortion = 0\<rparr>
            \<lparr>sampleRate = 44100, buf_length = 4, channels = [[0, 1 / 2, 0, - 1 / 2]]\<rparr> = Inr out \<and>
         buf_length out = 4 \<and> numberOfChannels out = 1 \<and> sampleRate out = 44100 \<and>
         channels out ! 0 ! 1 = source_node ref_platform
            \<lparr>sampleRate = 44100, buf_length = 4, channels = [[0, 1 / 2, 0, - 1 / 2]]\<rparr> (9 / 10 * 2) 0 1"
proof -
  let ?ty = "\<lparr>vt_value = ''elderly'', vt_label = ''Elderly Voice'',
       vt_description = ''Tremolo and slower speech'', vt_pitch = 9 / 10, vt_formant = 9 / 10,
       vt_preview = ''/audio/preview-elderly.mp3''\<rparr>"
  let ?st = "\<lparr>pitch = 2, speed = 1, reverb = 0, echo = 0, distortion = 0\<rparr>"
  let ?b = "\<lparr>sampleRate = 44100, buf_length = 4, channels = [[0, 1 / 2, 0, - 1 / 2]]\<rparr>"
  have f: "find (\<lambda>type. vt_value type = ''elderly'') voiceTypes = Some ?ty"
    by (simp add: voiceTypes_def)
  from applyVoiceTransformation_length [OF f, of ref_platform ?st ?b]
  show ?thesis by (auto simp: numberOfChannels_def)
qed

subsection \<open>Range of the rendered samples\<close>

text \<open>
  An all-ones mono buffer of 2401 frames at 8000 Hz, preset \<open>elderly\<close>, echo at 1. The
  delay is 2400 frames; at frame 2400 the dry gain 0.7 and the wet gain 0.5 both carry a
  sample of 1.
\<close>

lemma echo_example:
  "rendered_sample ref_platform ''elderly''
      \<lparr>pitch = 1, speed = 1, reverb = 0, echo = 1, distortion = 0\<rparr>
      \<lparr>sampleRate = 8000, buf_length = 2401, channels = [replicate 2401 1]\<rparr> 0 2400 = Inr (6 / 5)"
proof -
  let ?b = "\<lparr>sampleRate = 8000, buf_length = 2401, channels = [replicate 2401 1]\<rparr>"
  have src0: "ref_source ?b (9 / 10) 0 0 = 1"
    by (simp add: ref_source_def numberOfChannels_def Let_def)
  have src: "ref_source ?b (9 / 10) 0 2400 = 1"
    by (simp add: ref_source_def numberOfChannels_def Let_def)
  have dl: "ref_delay_line 2399 g (ref_source ?b (9 / 10) 0) 2400 = 1" for g
  proof -
    have "ref_delay_line 2399 g (ref_source ?b (9 / 10) 0) 2400
            = ref_source ?b (9 / 10) 0 0 + g * ref_delay_line 2399 g (ref_source ?b (9 / 10) 0) 0"
      by (subst ref_delay_line.simps) simp
    also have "ref_delay_line 2399 g (ref_source ?b (9 / 10) 0) 0 = 0"
      by (subst ref_delay_line.simps) simp
    finally show ?thesis by (simp add: src0)
  qed
  show ?thesis
    by (simp add: rendered_sample_def applyVoiceTransformation_def voiceTypes_def
        startRendering_def ref_platform_def gain_node_def mix_def ref_delay_def
        numberOfChannels_def Let_def dl src)
qed

text \<open>
  Claim C3 as stated puts every sample of the rendered buffer in \<open>[-1, 1]\<close>. The graph
  built by \<open>applyVoiceTransformation\<close> ends in the last effect node, with no clamping
  node: on the reference platform the echo example renders a sample of 1.2.
\<close>

theorem render_unclamped_counterexample:
  "rendered_sample ref_platform ''elderly''
      \<lparr>pitch = 1, speed = 1, reverb = 0, echo = 1, distortion = 0\<rparr>
      \<lparr>sampleRate = 8000, buf_length = 2401, channels = [replicate 2401 1]\<rparr> 0 2400 = Inr (6 / 5)"
  by (rule echo_example)

text \<open>
  Claim C3, amended. The clamp is the encoder's: for every platform, preset of the
  table, settings and source, the render returns a buffer, \<open>audioBufferToBlob\<close> encodes
  it, and every 16-bit sample of the file is the rendered sample clamped to \<open>[-1, 1]\<close>,
  scaled by 32767 and truncated, hence between -32767 and 32767.
\<close>

theorem voice_change_encoded_clamped:
  assumes "find (\<lambda>type. vt_value type = sel) voiceTypes = Some ty"
  shows "\<exists>out bytes.
           applyVoiceTransformation P True sel st buffer = Inr out \<and>
           audioBufferToBlob out = Inr bytes \<and>
           (\<forall>i<buf_length out. \<forall>c<numberOfChannels out.
              getInt16 (44 + 2 * (i * numberOfChannels out + c)) True bytes
                = Inr (js_trunc (max (- 1) (min 1 (channels out ! c ! i)) * 32767)) \<and>
              - 32767 \<le> js_trunc (max (- 1) (min 1 (channels out ! c ! i)) * 32767) \<and>
              js_trunc (max (- 1) (min 1 (channels out ! c ! i)) * 32767) \<le> 32767)"
proof -
  obtain out where out: "applyVoiceTransformation P True sel st buffer = Inr out"
    using assms by (auto simp: applyVoiceTransformation_def Let_def)
  from applyVoiceTransformation_rendered [OF out] have ok: "AudioBuffer_ok out"
    by (auto simp: startRendering_ok)
  have enc: "audioBufferToBlob out = Inr (wav_header out @ wav_body out)"
    using ok by (rule audioBufferToBlob_layout)
  have "\<forall>i<buf_length out. \<forall>c<numberOfChannels out.
              getInt16 (44 + 2 * (i * numberOfChannels out + c)) True (wav_header out @ wav_body out)
                = Inr (js_trunc (max (- 1) (min 1 (channels out ! c ! i)) * 32767)) \<and>
              - 32767 \<le> js_trunc (max (- 1) (min 1 (channels out ! c ! i)) * 32767) \<and>
              js_trunc (max (- 1) (min 1 (channels out ! c ! i)) * 32767) \<le> 32767"
    using getInt16_sample [of _ out] pcm16_range by (simp only: pcm16_def) blast
  with out enc show ?thesis by blast
qed

text \<open>The echo example: the rendered sample 1.2 is written as 32767.\<close>

theorem voice_change_encoded_clamped_witness:
  "\<exists>out bytes.
     applyVoiceTransformation ref_platform True ''elderly''
        \<lparr>pitch = 1, speed = 1, reverb = 0, echo = 1, distortion = 0\<rparr>
        \<lparr>sampleRate = 8000, buf_length = 2401, channels = [replicate 2401 1]\<rparr> = Inr out \<and>
     audioBufferToBlob out = Inr bytes \<and>
     channels out ! 0 ! 2400 = 6 / 5 \<and>
     getInt16 (44 + 2 * 2400) True bytes = Inr 32767"
proof -
  let ?ty = "\<lparr>vt_value = ''elderly'', vt_label = ''Elderly Voice'',
       vt_description = ''Tremolo and slower speech'', vt_pitch = 9 / 10, vt_formant = 9 / 10,
       vt_preview = ''/audio/preview-elderly.mp3''\<rparr>"
  let ?st = "\<lparr>pitch = 1, speed = 1, reverb = 0, echo = 1, distortion = 0\<rparr>"
  let ?b = "\<lparr>sampleRate = 8000, buf_length = 2401, channels = [replicate 2401 1]\<rparr>"
  have f: "find (\<lambda>type. vt_value type = ''elderly'') voiceTypes = Some ?ty"
    by (simp add: voiceTypes_def)
  from voice_change_encoded_clamped [OF f, of ref_platform ?st ?b] obtain out bytes where
    out: "applyVoiceTransformation ref_platform True ''elderly'' ?st ?b = Inr out"
    and b: "audioBufferToBlob out = Inr bytes"
    and v: "\<And>i c. i < buf_length out \<Longrightarrow> c < numberOfChannels out \<Longrightarrow>
              getInt16 (44 + 2 * (i * numberOfChannels out + c)) True bytes
                = Inr (js_trunc (max (- 1) (min 1 (channels out ! c ! i)) * 32767))"
    by blast
  from applyVoiceTransformation_rendered [OF out] obtain d where
    d: "out = startRendering \<lparr>ctx_numberOfChannels = numberOfChannels ?b,
                  ctx_length = buf_length ?b, ctx_sampleRate = sampleRate ?b\<rparr> d"
    by blast
  have "numberOfChannels ?b = 1" by (simp add: numberOfChannels_def)
  then have dims: "buf_length out = 2401" "numberOfChannels out = 1"
    unfolding d by (simp_all add: startRendering_dims)
  have s: "channels out ! 0 ! 2400 = 6 / 5"
    using echo_example out by (simp add: rendered_sample_def)
  have "getInt16 (44 + 2 * 2400) True bytes = Inr 32767"
    using v [of 2400 0] dims by (simp add: s js_trunc_def)
  with out b s show ?thesis by blast
qed

subsection \<open>Zero amounts\<close>

lemma curve_last:
  "createDistortionCurve a ! 44099
     = ((3 + a) * (22049 / 22050) * 20 * (pi / 180)) / (pi + a * \<bar>22049 / 22050\<bar>)"
proof -
  let ?f = "\<lambda>i. let x = (real i * 2) / real (44100::nat) - 1
                in ((3 + a) * x * 20 * (pi / 180)) / (pi + a * \<bar>x\<bar>)"
  have "createDistortionCurve a ! 44099 = map ?f [0..<44100] ! 44099"
    by (simp only: createDistortionCurve_def Let_def)
  also have "\<dots> = ?f ([0..<44100] ! 44099)"
    by (rule nth_map) simp
  also have "[0..<44100] ! 44099 = (44099::nat)"
    by simp
  also have "(real 44099 * 2) / real (44100::nat) - 1 = 22049 / 22050"
    by simp
  finally show ?thesis by (simp only: Let_def)
qed

lemma robot_example_sample:
  "ref_waveshaper (createDistortionCurve (1 / 2)) ''4x''
     (ref_source \<lparr>sampleRate = 44100, buf_length = 1, channels = [[1]]\<rparr> 1) 0 0 < 1"
proof -
  let ?src = "ref_source \<lparr>sampleRate = 44100, buf_length = 1, channels = [[1]]\<rparr> 1"
  have src: "?src 0 0 = 1"
    by (simp add: ref_source_def numberOfChannels_def Let_def)
  have len: "length (createDistortionCurve (1 / 2)) = 44100"
    by (simp add: createDistortionCurve_def Let_def)
  have "ref_waveshaper (createDistortionCurve (1 / 2)) ''4x'' ?src 0 0
          = createDistortionCurve (1 / 2) ! (44100 - 1)"
    by (simp only: ref_waveshaper_def Let_def src len) simp
  also have "\<dots> = createDistortionCurve (1 / 2) ! 44099" by simp
  also have "\<dots> = ((3 + 1 / 2) * (22049 / 22050) * 20 * (pi / 180)) / (pi + 1 / 2 * \<bar>22049 / 22050\<bar>)"
    by (rule curve_last)
  also have "\<dots> < 1"
  proof -
    have "(3 + 1 / 2) * (22049 / 22050) * 20 * (pi / 180) = (154343 / 396900) * pi" by simp
    also have "\<dots> < 1 * pi" using pi_gt_zero by (intro mult_strict_right_mono) simp_all
    also have "\<dots> < pi + 1 / 2 * \<bar>22049 / 22050\<bar>" by simp
    finally have "(3 + 1 / 2) * (22049 / 22050) * 20 * (pi / 180) < pi + 1 / 2 * \<bar>22049 / 22050\<bar>" .
    moreover have "0 < pi + 1 / 2 * \<bar>22049 / 22050\<bar>" using pi_gt_zero by (intro add_pos_pos) simp_all
    ultimately show ?thesis by (simp only: divide_less_eq_1_pos)
  qed
  finally show ?thesis .
qed

text \<open>
  Claim C4, amended by the condition that the preset is not \<open>robot\<close>. For every
  platform, source and settings with reverb, echo and distortion at 0 and a preset other
  than \<open>robot\<close>, the render equals the rate-stage-only pipeline (errors included).
\<close>

theorem zero_amounts_rate_only:
  assumes "sel \<noteq> ''robot''" and "reverb st = 0" and "echo st = 0" and "distortion st = 0"
  shows "applyVoiceTransformation P ac sel st buffer = rate_stage_only P ac sel st buffer"
  using assms
  by (simp add: applyVoiceTransformation_def rate_stage_only_def Let_def split: option.splits)

text \<open>Preset \<open>elderly\<close> with all amounts at 0.\<close>

theorem zero_amounts_rate_only_witness:
  "applyVoiceTransformation ref_platform True ''elderly''
      \<lparr>pitch = 1, speed = 1, reverb = 0, echo = 0, distortion = 0\<rparr>
      \<lparr>sampleRate = 44100, buf_length = 1, channels = [[1]]\<rparr>
   = rate_stage_only ref_platform True ''elderly''
      \<lparr>pitch = 1, speed = 1, reverb = 0, echo = 0, distortion = 0\<rparr>
      \<lparr>sampleRate = 44100, buf_length = 1, channels = [[1]]\<rparr>"
  using zero_amounts_rate_only
    [of "''elderly''" "\<lparr>pitch = 1, speed = 1, reverb = 0, echo = 0, distortion = 0\<rparr>"
        ref_platform True "\<lparr>sampleRate = 44100, buf_length = 1, channels = [[1]]\<rparr>"]
  by simp

text \<open>
  Claim C4 as stated covers every preset. With the preset \<open>robot\<close> the wave shaper is
  inserted at amount 0.5 although the distortion amount is 0: on the reference platform
  a one-frame buffer holding the sample 1 renders to the last curve entry, which is
  below 1, while the rate-stage-only pipeline renders 1.
\<close>

theorem robot_zero_amounts_counterexample:
  "applyVoiceTransformation ref_platform True ''robot''
      \<lparr>pitch = 1, speed = 1, reverb = 0, echo = 0, distortion = 0\<rparr>
      \<lparr>sampleRate = 44100, buf_length = 1, channels = [[1]]\<rparr>
   \<noteq> rate_stage_only ref_platform True ''robot''
      \<lparr>pitch = 1, speed = 1, reverb = 0, echo = 0, distortion = 0\<rparr>
      \<lparr>sampleRate = 44100, buf_length = 1, channels = [[1]]\<rparr>"
proof -
  let ?b = "\<lparr>sampleRate = 44100, buf_length = 1, channels = [[1]]\<rparr>"
  have src: "ref_source ?b 1 0 0 = 1"
    by (simp add: ref_source_def numberOfChannels_def Let_def)
  have "ref_waveshaper (createDistortionCurve (1 / 2)) ''4x'' (ref_source ?b 1) 0 0 \<noteq> ref_source ?b 1 0 0"
  proof
    assume "ref_waveshaper (createDistortionCurve (1 / 2)) ''4x'' (ref_source ?b 1) 0 0 = ref_source ?b 1 0 0"
    with src have "ref_waveshaper (createDistortionCurve (1 / 2)) ''4x'' (ref_source ?b 1) 0 0 = 1"
      by (simp only:)
    with robot_example_sample show False by (simp only: less_irrefl)
  qed
  then show ?thesis
    by (simp add: applyVoiceTransformation_def rate_stage_only_def voiceTypes_def Let_def
        startRendering_def ref_platform_def numberOfChannels_def)
qed

end
